theory Spec2Isabelle
  imports Complex_Main "HOL-Library.Sublist"
begin

section \<open>The object tracker: data model\<close>

text \<open>
  The tracker of \<^verbatim>\<open>services/tracker.ts\<close> (class \<^verbatim>\<open>ObjectTracker\<close>), embedded
  with explicit state passing.

  Modelling decisions:
  \<^item> In the tracker a JavaScript \<^verbatim>\<open>number\<close> that holds a coordinate, a score, an IoU or a
    threshold is a \<^typ>\<open>real\<close>, with exact arithmetic: the theorems about \<^verbatim>\<open>update\<close> and
    \<^verbatim>\<open>reset\<close> are about the structure of the matching, whatever values the IoU takes.
    The theorems about \<^verbatim>\<open>calculateIoU\<close> itself are about \<open>calculateIoU64\<close>, the function
    in IEEE 754 binary64 arithmetic with rounding, overflow, infinities and \<^verbatim>\<open>NaN\<close>.
    Counters (\<^verbatim>\<open>id\<close>, \<^verbatim>\<open>nextId\<close>, \<^verbatim>\<open>missingFrames\<close>,
    \<^verbatim>\<open>maxMissingFrames\<close>) are \<^typ>\<open>int\<close>: a double counts exactly up to \<open>2^53\<close>,
    and a fractional limit would act as its ceiling.
  \<^item> A bounding box \<^verbatim>\<open>[x, y, width, height]\<close> is a 4-tuple. The source mutates box
    arrays in place and lets a track share the array of the detection it took its box from.
    The first model passes boxes by value, which is what the code computes when every
    detection handed to \<^verbatim>\<open>update\<close> carries a box array of its own that nobody else
    touches afterwards; the second model keeps the box arrays in a store, and is the one
    for what two trackers do with the same detections.
  \<^item> The fields \<^verbatim>\<open>class\<close> and \<^verbatim>\<open>id\<close> are named \<open>class'\<close> and \<open>id'\<close>.
  \<^item> \<^verbatim>\<open>Math.random()\<close> is an input: \<open>rnd n\<close> is the value of the \<open>n\<close>-th draw made
    during one call of \<^verbatim>\<open>update\<close>.
  \<^item> \<^verbatim>\<open>Array.prototype.sort\<close> is stable (ECMAScript 2019); it is the stable insertion
    sort \<^const>\<open>sort_key\<close> on the negated IoU.
\<close>

type_synonym bbox = "real \<times> real \<times> real \<times> real"

record DetectedObject =
  bbox :: bbox
  class' :: string
  score :: real

record TrackedObject = DetectedObject +
  id' :: int
  missingFrames :: int
  color :: string
  velocity :: "real \<times> real"

record ObjectTracker =
  nextId :: int
  tracks :: "TrackedObject list"
  maxMissingFrames :: int
  iouThreshold :: real

record Match =
  trackIdx :: nat
  detIdx :: nat
  iou :: real

text \<open>The constructor; its default arguments are \<open>30\<close> and \<open>0.25\<close>.\<close>

definition constructor :: "int \<Rightarrow> real \<Rightarrow> ObjectTracker" where
  "constructor maxMissing threshold =
     \<lparr>nextId = 1, tracks = [], maxMissingFrames = maxMissing, iouThreshold = threshold\<rparr>"

definition default_tracker :: ObjectTracker where
  "default_tracker = constructor 30 (1 / 4)"

section \<open>Intersection over union\<close>

fun calculateIoU :: "bbox \<Rightarrow> bbox \<Rightarrow> real" where
  "calculateIoU (ax, ay, aw, ah) (bx, by, bw, bh) =
     (let x1 = max ax bx;
          y1 = max ay by;
          x2 = min (ax + aw) (bx + bw);
          y2 = min (ay + ah) (by + bh)
      in if x2 \<le> x1 \<or> y2 \<le> y1 then 0
         else
           let intersectionArea = (x2 - x1) * (y2 - y1);
               box1Area = aw * ah;
               box2Area = bw * bh;
               unionArea = box1Area + box2Area - intersectionArea
           in intersectionArea / (if unionArea = 0 then 1 else unionArea))"




text \<open>Two boxes are disjoint: their projections on one axis do not overlap.\<close>

definition disjoint_boxes :: "bbox \<Rightarrow> bbox \<Rightarrow> bool" where
  "disjoint_boxes a b =
     (case a of (ax, ay, aw, ah) \<Rightarrow> case b of (bx, by, bw, bh) \<Rightarrow>
        ax + aw \<le> bx \<or> bx + bw \<le> ax \<or> ay + ah \<le> by \<or> by + bh \<le> ay)"

definition well_formed :: "bbox \<Rightarrow> bool" where
  "well_formed b = (case b of (x, y, w, h) \<Rightarrow> 0 \<le> w \<and> 0 \<le> h)"

text \<open>A rectangle of zero width or zero height.\<close>

definition degenerate :: "bbox \<Rightarrow> bool" where
  "degenerate b = (case b of (x, y, w, h) \<Rightarrow> w = 0 \<or> h = 0)"

section \<open>The IoU in binary64 arithmetic\<close>

text \<open>
  A JavaScript \<^verbatim>\<open>number\<close> is an IEEE 754 binary64 value: a finite real, an infinity or
  \<^verbatim>\<open>NaN\<close>. A finite value has the form \<open>m * 2^e\<close> with \<open>\<bar>m\<bar> < 2^53\<close> and
  \<open>-1074 \<le> e \<le> 971\<close>. The two zeros are one value here: the sign of a zero shows only in
  the sign of the infinity that a division by it yields, and \<^verbatim>\<open>calculateIoU\<close> performs no
  such division.
\<close>

datatype number = Num real | PInf | NInf | NaN

text \<open>Rounding of a real to an integer, to nearest, ties to even.\<close>

definition rne :: "real \<Rightarrow> int" where
  "rne x =
     (let f = \<lfloor>x\<rfloor>; d = x - of_int f
      in if d < 1 / 2 then f else if 1 / 2 < d then f + 1 else if even f then f else f + 1)"

text \<open>
  The exponent of the last place of the doubles around \<open>x\<close>: 52 below the exponent of \<open>x\<close>,
  and \<open>-1074\<close> in the subnormal range.
\<close>

definition quantum :: "real \<Rightarrow> int" where
  "quantum x = max (\<lfloor>log 2 \<bar>x\<bar>\<rfloor> - 52) (- 1074)"

definition round_finite :: "real \<Rightarrow> real" where
  "round_finite x =
     (if x = 0 then 0 else of_int (rne (x / 2 powi quantum x)) * 2 powi quantum x)"

definition overflow_threshold :: real where
  "overflow_threshold = 2 ^ 1024"

text \<open>
  The result of an operation whose exact value is \<open>x\<close>: \<open>x\<close> rounded to the nearest double, an
  infinity when the rounded value leaves the range.
\<close>

definition round64 :: "real \<Rightarrow> number" where
  "round64 x =
     (let r = round_finite x
      in if overflow_threshold \<le> r then PInf
         else if r \<le> - overflow_threshold then NInf else Num r)"

definition is_double :: "real \<Rightarrow> bool" where
  "is_double x = (round64 x = Num x)"

text \<open>The operations \<^verbatim>\<open>+\<close>, \<^verbatim>\<open>-\<close>, \<^verbatim>\<open>*\<close>, \<^verbatim>\<open>/\<close>, \<^verbatim>\<open><=\<close>, \<^verbatim>\<open>Math.max\<close> and \<^verbatim>\<open>Math.min\<close>.\<close>

fun fneg :: "number \<Rightarrow> number" where
  "fneg (Num x) = Num (- x)"
| "fneg PInf = NInf"
| "fneg NInf = PInf"
| "fneg NaN = NaN"

fun fadd :: "number \<Rightarrow> number \<Rightarrow> number" where
  "fadd (Num x) (Num y) = round64 (x + y)"
| "fadd NaN b = NaN"
| "fadd a NaN = NaN"
| "fadd PInf NInf = NaN"
| "fadd NInf PInf = NaN"
| "fadd PInf b = PInf"
| "fadd NInf b = NInf"
| "fadd (Num x) b = b"

definition fsub :: "number \<Rightarrow> number \<Rightarrow> number" where
  "fsub a b = fadd a (fneg b)"

fun fmul :: "number \<Rightarrow> number \<Rightarrow> number" where
  "fmul (Num x) (Num y) = round64 (x * y)"
| "fmul NaN b = NaN"
| "fmul a NaN = NaN"
| "fmul (Num x) b = (if x = 0 then NaN else if 0 < x then b else fneg b)"
| "fmul a (Num y) = (if y = 0 then NaN else if 0 < y then a else fneg a)"
| "fmul PInf b = b"
| "fmul NInf b = fneg b"

fun fdiv :: "number \<Rightarrow> number \<Rightarrow> number" where
  "fdiv NaN b = NaN"
| "fdiv a NaN = NaN"
| "fdiv (Num x) (Num y) =
     (if y = 0 then (if x = 0 then NaN else if 0 < x then PInf else NInf)
      else round64 (x / y))"
| "fdiv (Num x) b = Num 0"
| "fdiv a (Num y) = (if 0 \<le> y then a else fneg a)"
| "fdiv a b = NaN"

fun fle :: "number \<Rightarrow> number \<Rightarrow> bool" where
  "fle NaN b = False"
| "fle a NaN = False"
| "fle (Num x) (Num y) = (x \<le> y)"
| "fle NInf b = True"
| "fle a PInf = True"
| "fle a b = False"

definition fmax :: "number \<Rightarrow> number \<Rightarrow> number" where
  "fmax a b = (if a = NaN \<or> b = NaN then NaN else if fle a b then b else a)"

definition fmin :: "number \<Rightarrow> number \<Rightarrow> number" where
  "fmin a b = (if a = NaN \<or> b = NaN then NaN else if fle a b then a else b)"

text \<open>The division with its divisor checked: \<open>None\<close> stands for a division by zero.\<close>

definition fdiv_checked :: "number \<Rightarrow> number \<Rightarrow> number option" where
  "fdiv_checked a b = (if b = Num 0 then None else Some (fdiv a b))"

text \<open>
  \<^verbatim>\<open>calculateIoU\<close> as the engine runs it, on boxes of four numbers. The divisor
  \<^verbatim>\<open>unionArea || 1\<close> is 1 when \<^verbatim>\<open>unionArea\<close> is falsy, that is a zero or \<^verbatim>\<open>NaN\<close>.
\<close>

type_synonym bbox64 = "number \<times> number \<times> number \<times> number"

fun calculateIoU64 :: "bbox64 \<Rightarrow> bbox64 \<Rightarrow> number" where
  "calculateIoU64 (ax, ay, aw, ah) (bx, by, bw, bh) =
     (let x1 = fmax ax bx;
          y1 = fmax ay by;
          x2 = fmin (fadd ax aw) (fadd bx bw);
          y2 = fmin (fadd ay ah) (fadd by bh)
      in if fle x2 x1 \<or> fle y2 y1 then Num 0
         else
           let intersectionArea = fmul (fsub x2 x1) (fsub y2 y1);
               box1Area = fmul aw ah;
               box2Area = fmul bw bh;
               unionArea = fsub (fadd box1Area box2Area) intersectionArea
           in fdiv intersectionArea
                (if unionArea = Num 0 \<or> unionArea = NaN then Num 1 else unionArea))"

text \<open>The same function with the division checked.\<close>

fun calculateIoU64_checked :: "bbox64 \<Rightarrow> bbox64 \<Rightarrow> number option" where
  "calculateIoU64_checked (ax, ay, aw, ah) (bx, by, bw, bh) =
     (let x1 = fmax ax bx;
          y1 = fmax ay by;
          x2 = fmin (fadd ax aw) (fadd bx bw);
          y2 = fmin (fadd ay ah) (fadd by bh)
      in if fle x2 x1 \<or> fle y2 y1 then Some (Num 0)
         else
           let intersectionArea = fmul (fsub x2 x1) (fsub y2 y1);
               box1Area = fmul aw ah;
               box2Area = fmul bw bh;
               unionArea = fsub (fadd box1Area box2Area) intersectionArea
           in fdiv_checked intersectionArea
                (if unionArea = Num 0 \<or> unionArea = NaN then Num 1 else unionArea))"

text \<open>
  The test \<^verbatim>\<open>x2 <= x1 || y2 <= y1\<close> and the values of the constants
  \<^verbatim>\<open>intersectionArea\<close> and \<^verbatim>\<open>unionArea\<close> of the function, by themselves.
\<close>

fun no_intersection64 :: "bbox64 \<Rightarrow> bbox64 \<Rightarrow> bool" where
  "no_intersection64 (ax, ay, aw, ah) (bx, by, bw, bh) =
     (fle (fmin (fadd ax aw) (fadd bx bw)) (fmax ax bx)
      \<or> fle (fmin (fadd ay ah) (fadd by bh)) (fmax ay by))"

fun intersectionArea64 :: "bbox64 \<Rightarrow> bbox64 \<Rightarrow> number" where
  "intersectionArea64 (ax, ay, aw, ah) (bx, by, bw, bh) =
     fmul (fsub (fmin (fadd ax aw) (fadd bx bw)) (fmax ax bx))
          (fsub (fmin (fadd ay ah) (fadd by bh)) (fmax ay by))"

fun unionArea64 :: "bbox64 \<Rightarrow> bbox64 \<Rightarrow> number" where
  "unionArea64 (ax, ay, aw, ah) (bx, by, bw, bh) =
     fsub (fadd (fmul aw ah) (fmul bw bh))
          (intersectionArea64 (ax, ay, aw, ah) (bx, by, bw, bh))"

text \<open>\<^verbatim>\<open>Number.isFinite\<close>: neither an infinity nor \<^verbatim>\<open>NaN\<close>.\<close>

fun isFinite :: "number \<Rightarrow> bool" where
  "isFinite (Num x) = True"
| "isFinite PInf = False"
| "isFinite NInf = False"
| "isFinite NaN = False"

text \<open>A box of finite coordinates as a box of numbers; its coordinates are doubles.\<close>

definition box64 :: "bbox \<Rightarrow> bbox64" where
  "box64 b = (case b of (x, y, w, h) \<Rightarrow> (Num x, Num y, Num w, Num h))"

definition doubles :: "bbox \<Rightarrow> bool" where
  "doubles b = (case b of (x, y, w, h) \<Rightarrow> is_double x \<and> is_double y \<and> is_double w \<and> is_double h)"

text \<open>
  No addition, subtraction or multiplication of \<^verbatim>\<open>calculateIoU\<close> rounds on the boxes \<open>a\<close>
  and \<open>b\<close>: the exact value of each is a double. Nothing is asked of the final division.
\<close>

definition exact :: "bbox \<Rightarrow> bbox \<Rightarrow> bool" where
  "exact a b =
     (case a of (ax, ay, aw, ah) \<Rightarrow> case b of (bx, by, bw, bh) \<Rightarrow>
        let x1 = max ax bx;
            y1 = max ay by;
            x2 = min (ax + aw) (bx + bw);
            y2 = min (ay + ah) (by + bh)
        in is_double (ax + aw) \<and> is_double (bx + bw) \<and> is_double (ay + ah)
           \<and> is_double (by + bh)
           \<and> (if x2 \<le> x1 \<or> y2 \<le> y1 then True
               else
                 let intersectionArea = (x2 - x1) * (y2 - y1);
                     box1Area = aw * ah;
                     box2Area = bw * bh
                 in is_double (x2 - x1) \<and> is_double (y2 - y1) \<and> is_double intersectionArea
                    \<and> is_double box1Area \<and> is_double box2Area
                    \<and> is_double (box1Area + box2Area)
                    \<and> is_double (box1Area + box2Area - intersectionArea)))"

text \<open>A box whose coordinates are of moderate size: at most \<open>2^509\<close> in magnitude.\<close>

definition coordinate_bound :: real where
  "coordinate_bound = 2 ^ 509"

definition moderate :: "bbox \<Rightarrow> bool" where
  "moderate b =
     (case b of (x, y, w, h) \<Rightarrow>
        \<bar>x\<bar> \<le> coordinate_bound \<and> \<bar>y\<bar> \<le> coordinate_bound
        \<and> \<bar>w\<bar> \<le> coordinate_bound \<and> \<bar>h\<bar> \<le> coordinate_bound)"




definition cancel_box :: bbox where
  "cancel_box = (2 ^ 53 + 2, 0, 1, 1)"

definition huge_box :: bbox where
  "huge_box = (0, 0, 2 ^ 600, 2 ^ 600)"

definition nan_box :: bbox where
  "nan_box = (2 ^ 564 + 2 ^ 512, 2 ^ 564 + 2 ^ 512, 2 ^ 511, 2 ^ 511)"

section \<open>The update operation\<close>

text \<open>Step 1, the body of the first \<^verbatim>\<open>forEach\<close>: the box moves by the velocity.\<close>

definition predict :: "TrackedObject \<Rightarrow> TrackedObject" where
  "predict track =
     (case bbox track of (x, y, w, h) \<Rightarrow>
        track\<lparr>bbox := (x + fst (velocity track), y + snd (velocity track), w, h)\<rparr>)"

text \<open>
  Step 2, the nested \<^verbatim>\<open>forEach\<close>: every pair whose IoU reaches the threshold, tracks in
  the outer loop and detections in the inner one.
\<close>

definition candidate_matches ::
  "TrackedObject list \<Rightarrow> DetectedObject list \<Rightarrow> real \<Rightarrow> Match list" where
  "candidate_matches ts detections threshold =
     concat (map (\<lambda>tIdx.
       concat (map (\<lambda>dIdx.
         let i = calculateIoU (bbox (ts ! tIdx)) (bbox (detections ! dIdx))
         in if i \<ge> threshold then [\<lparr>trackIdx = tIdx, detIdx = dIdx, iou = i\<rparr>] else [])
       [0..<length detections]))
     [0..<length ts])"

text \<open>\<^verbatim>\<open>matches.sort((a, b) => b.iou - a.iou)\<close>: descending IoU, stable.\<close>

definition sort_matches :: "Match list \<Rightarrow> Match list" where
  "sort_matches ms = sort_key (\<lambda>m. - iou m) ms"

text \<open>Step 3, the update of a matched track by its detection.\<close>

definition apply_match :: "TrackedObject \<Rightarrow> DetectedObject \<Rightarrow> TrackedObject" where
  "apply_match track det =
     (let prevX = fst (bbox track) - fst (velocity track);
          prevY = fst (snd (bbox track)) - snd (velocity track);
          measuredVx = fst (bbox det) - prevX;
          measuredVy = fst (snd (bbox det)) - prevY;
          alpha = 1 / 2
      in track\<lparr>velocity := (fst (velocity track) * (1 - alpha) + measuredVx * alpha,
                              snd (velocity track) * (1 - alpha) + measuredVy * alpha),
               bbox := bbox det,
               score := score det,
               class' := class' det,
               missingFrames := 0\<rparr>)"

text \<open>
  The state of the \<^verbatim>\<open>for (const match of matches)\<close> loop: the track array (its elements
  are mutated), the output list and the two index sets.
\<close>

record LoopState =
  loopTracks :: "TrackedObject list"
  activeTracks :: "TrackedObject list"
  assignedTrackIndices :: "nat set"
  assignedDetIndices :: "nat set"

fun match_loop :: "Match list \<Rightarrow> DetectedObject list \<Rightarrow> LoopState \<Rightarrow> LoopState" where
  "match_loop [] detections s = s"
| "match_loop (m # ms) detections s =
     (if trackIdx m \<in> assignedTrackIndices s \<or> detIdx m \<in> assignedDetIndices s
      then match_loop ms detections s
      else
        let track = apply_match (loopTracks s ! trackIdx m) (detections ! detIdx m)
        in match_loop ms detections
             \<lparr>loopTracks = (loopTracks s)[trackIdx m := track],
              activeTracks = activeTracks s @ [track],
              assignedTrackIndices = insert (trackIdx m) (assignedTrackIndices s),
              assignedDetIndices = insert (detIdx m) (assignedDetIndices s)\<rparr>)"

text \<open>
  The matches for which the loop body runs past its \<^verbatim>\<open>continue\<close>, in the order in which
  it reaches them: the accepted pairs.
\<close>

fun accepted_matches :: "Match list \<Rightarrow> nat set \<Rightarrow> nat set \<Rightarrow> Match list" where
  "accepted_matches [] aT aD = []"
| "accepted_matches (m # ms) aT aD =
     (if trackIdx m \<in> aT \<or> detIdx m \<in> aD
      then accepted_matches ms aT aD
      else m # accepted_matches ms (insert (trackIdx m) aT) (insert (detIdx m) aD))"

text \<open>Step 4: an unmatched track ages, and stays while its counter is below the limit.\<close>

definition unmatched_tracks ::
  "TrackedObject list \<Rightarrow> nat set \<Rightarrow> int \<Rightarrow> TrackedObject list" where
  "unmatched_tracks ts assigned maxMissing =
     concat (map (\<lambda>index.
       if index \<notin> assigned
       then (let track = (ts ! index)\<lparr>missingFrames := missingFrames (ts ! index) + 1\<rparr>
             in if missingFrames track < maxMissing then [track] else [])
       else [])
     [0..<length ts])"

text \<open>Step 5: an unmatched detection becomes a new track.\<close>

definition colors :: "string list" where
  "colors = [''#00f0ff'', ''#ff2a6d'', ''#05d5fa'', ''#39ff14'', ''#ffe600'', ''#bd00ff'']"

definition getRandomColor :: "real \<Rightarrow> string" where
  "getRandomColor r =
     (let i = \<lfloor>r * real (length colors)\<rfloor>
      in if 0 \<le> i \<and> i < int (length colors) then colors ! nat i else ''undefined'')"

definition newTrack :: "DetectedObject \<Rightarrow> int \<Rightarrow> real \<Rightarrow> TrackedObject" where
  "newTrack det n r =
     \<lparr>bbox = bbox det, class' = class' det, score = score det,
      id' = n, missingFrames = 0, color = getRandomColor r, velocity = (0, 0)\<rparr>"

text \<open>
  The last \<^verbatim>\<open>forEach\<close>, from detection \<open>index\<close> on: \<open>n\<close> is \<^verbatim>\<open>this.nextId\<close> and \<open>k\<close>
  counts the draws of \<^verbatim>\<open>Math.random()\<close> made so far. It returns the new tracks and the
  value of \<^verbatim>\<open>this.nextId\<close> at the end.
\<close>

fun spawn :: "DetectedObject list \<Rightarrow> nat \<Rightarrow> nat set \<Rightarrow> int \<Rightarrow> (nat \<Rightarrow> real) \<Rightarrow> nat
    \<Rightarrow> TrackedObject list \<times> int" where
  "spawn [] index assigned n rnd k = ([], n)"
| "spawn (det # dets) index assigned n rnd k =
     (if index \<notin> assigned
      then (case spawn dets (Suc index) assigned (n + 1) rnd (Suc k) of
              (rest, n') \<Rightarrow> (newTrack det n (rnd k) # rest, n'))
      else spawn dets (Suc index) assigned n rnd k)"

text \<open>
  \<^verbatim>\<open>update(detections)\<close>. \<open>update_matches\<close> is the sorted array \<^verbatim>\<open>matches\<close>
  and \<open>update_loop\<close> the state in which the matching loop ends. The returned list is the
  new \<^verbatim>\<open>this.tracks\<close>; the second component is the tracker afterwards.
\<close>

definition update_matches :: "ObjectTracker \<Rightarrow> DetectedObject list \<Rightarrow> Match list" where
  "update_matches trk detections =
     sort_matches (candidate_matches (map predict (tracks trk)) detections (iouThreshold trk))"

definition update_loop :: "ObjectTracker \<Rightarrow> DetectedObject list \<Rightarrow> LoopState" where
  "update_loop trk detections =
     match_loop (update_matches trk detections) detections
       \<lparr>loopTracks = map predict (tracks trk), activeTracks = [],
        assignedTrackIndices = {}, assignedDetIndices = {}\<rparr>"

definition update ::
  "ObjectTracker \<Rightarrow> DetectedObject list \<Rightarrow> (nat \<Rightarrow> real) \<Rightarrow> TrackedObject list \<times> ObjectTracker" where
  "update trk detections rnd =
     (let s = update_loop trk detections;
          aged = unmatched_tracks (loopTracks s) (assignedTrackIndices s) (maxMissingFrames trk)
      in case spawn detections 0 (assignedDetIndices s) (nextId trk) rnd 0 of
           (spawned, n) \<Rightarrow>
             (activeTracks s @ aged @ spawned,
              trk\<lparr>tracks := activeTracks s @ aged @ spawned, nextId := n\<rparr>))"

text \<open>\<^verbatim>\<open>reset()\<close>.\<close>

definition reset :: "ObjectTracker \<Rightarrow> ObjectTracker" where
  "reset trk = trk\<lparr>tracks := [], nextId := 1\<rparr>"

section \<open>Sequences of calls\<close>

text \<open>
  The pairs the matching loop of one call accepts, and whether the live track with id \<open>n\<close>
  is left unmatched by that call.
\<close>

definition accepted :: "ObjectTracker \<Rightarrow> DetectedObject list \<Rightarrow> Match list" where
  "accepted trk detections = accepted_matches (update_matches trk detections) {} {}"

definition unmatched_in :: "ObjectTracker \<Rightarrow> DetectedObject list \<Rightarrow> int \<Rightarrow> bool" where
  "unmatched_in trk detections n =
     (n \<notin> set (map (\<lambda>m. id' (tracks trk ! trackIdx m)) (accepted trk detections)))"

text \<open>The tracks one call creates, in the order of their creation.\<close>

definition spawned_tracks ::
  "ObjectTracker \<Rightarrow> DetectedObject list \<Rightarrow> (nat \<Rightarrow> real) \<Rightarrow> TrackedObject list" where
  "spawned_tracks trk detections rnd =
     fst (spawn detections 0 (assignedDetIndices (update_loop trk detections)) (nextId trk) rnd 0)"

text \<open>A frame is what one call of \<^verbatim>\<open>update\<close> consumes: the detections and the random draws.\<close>

type_synonym frame = "DetectedObject list \<times> (nat \<Rightarrow> real)"

fun run_updates :: "ObjectTracker \<Rightarrow> frame list \<Rightarrow> ObjectTracker" where
  "run_updates trk [] = trk"
| "run_updates trk ((detections, rnd) # fs) = run_updates (snd (update trk detections rnd)) fs"

text \<open>The lists returned by successive calls of \<^verbatim>\<open>update\<close>.\<close>

fun outputs :: "ObjectTracker \<Rightarrow> frame list \<Rightarrow> TrackedObject list list" where
  "outputs trk [] = []"
| "outputs trk ((detections, rnd) # fs) =
     (case update trk detections rnd of (out, trk') \<Rightarrow> out # outputs trk' fs)"

text \<open>The track with id \<open>n\<close> is matched by none of the successive calls.\<close>

fun unmatched_for :: "int \<Rightarrow> ObjectTracker \<Rightarrow> frame list \<Rightarrow> bool" where
  "unmatched_for n trk [] = True"
| "unmatched_for n trk ((detections, rnd) # fs) =
     (unmatched_in trk detections n \<and> unmatched_for n (snd (update trk detections rnd)) fs)"

text \<open>The public operations, and a tracker driven by a sequence of them.\<close>

datatype call = Update "DetectedObject list" "nat \<Rightarrow> real" | Reset

fun step :: "ObjectTracker \<Rightarrow> call \<Rightarrow> ObjectTracker" where
  "step trk (Update detections rnd) = snd (update trk detections rnd)"
| "step trk Reset = reset trk"

fun run :: "ObjectTracker \<Rightarrow> call list \<Rightarrow> ObjectTracker" where
  "run trk [] = trk"
| "run trk (c # cs) = run (step trk c) cs"

text \<open>
  The ids a sequence of calls hands out, in the order of assignment: all of them, and those
  handed out after the last \<^verbatim>\<open>reset()\<close> (\<open>acc\<close> holds the ids handed out so far).
\<close>

fun spawned_ids :: "ObjectTracker \<Rightarrow> call \<Rightarrow> int list" where
  "spawned_ids trk (Update detections rnd) = map id' (spawned_tracks trk detections rnd)"
| "spawned_ids trk Reset = []"

fun assigned_ids :: "ObjectTracker \<Rightarrow> call list \<Rightarrow> int list" where
  "assigned_ids trk [] = []"
| "assigned_ids trk (c # cs) = spawned_ids trk c @ assigned_ids (step trk c) cs"

fun ids_since_reset :: "ObjectTracker \<Rightarrow> call list \<Rightarrow> int list \<Rightarrow> int list" where
  "ids_since_reset trk [] acc = acc"
| "ids_since_reset trk (Reset # cs) acc = ids_since_reset (reset trk) cs []"
| "ids_since_reset trk (Update detections rnd # cs) acc =
     ids_since_reset (snd (update trk detections rnd)) cs
       (acc @ map id' (spawned_tracks trk detections rnd))"

text \<open>Two tracks that agree in every field but the colour.\<close>

definition same_but_color :: "TrackedObject \<Rightarrow> TrackedObject \<Rightarrow> bool" where
  "same_but_color t u =
     (id' t = id' u \<and> bbox t = bbox u \<and> class' t = class' u \<and> score t = score u
      \<and> velocity t = velocity u \<and> missingFrames t = missingFrames u)"

text \<open>Two trackers that agree in everything but the colours of their tracks.\<close>

definition equal_up_to_color :: "ObjectTracker \<Rightarrow> ObjectTracker \<Rightarrow> bool" where
  "equal_up_to_color a b =
     (nextId a = nextId b \<and> maxMissingFrames a = maxMissingFrames b
      \<and> iouThreshold a = iouThreshold b
      \<and> list_all2 same_but_color (tracks a) (tracks b))"

text \<open>
  The invariant of the id counter: the live tracks have distinct, positive ids, all below
  \<^verbatim>\<open>nextId\<close>.
\<close>

definition wf_tracker :: "ObjectTracker \<Rightarrow> bool" where
  "wf_tracker trk =
     (distinct (map id' (tracks trk)) \<and> 0 < nextId trk \<and>
      list_all (\<lambda>t. 0 < id' t \<and> id' t < nextId trk) (tracks trk))"

text \<open>
  The indices of the live tracks that one call keeps, in the order of the returned list: the
  matched ones, then the unmatched ones whose counter stays below the limit.
\<close>

definition kept_indices :: "ObjectTracker \<Rightarrow> DetectedObject list \<Rightarrow> nat list" where
  "kept_indices trk detections =
     map trackIdx (accepted trk detections) @
     filter (\<lambda>i. i \<notin> trackIdx ` set (accepted trk detections)
                 \<and> missingFrames (tracks trk ! i) + 1 < maxMissingFrames trk)
       [0..<length (tracks trk)]"

section \<open>A tracker with two live tracks\<close>

text \<open>
  A concrete state and a concrete frame, used to instantiate the theorems below: the first
  track is moving, the second was missed once; the first two detections continue the two
  tracks, the third is far from both, the fourth also overlaps the first track.
\<close>

definition example_tracker :: ObjectTracker where
  "example_tracker =
     \<lparr>nextId = 3,
      tracks =
        [\<lparr>bbox = (0, 0, 10, 10), class' = ''person'', score = 9 / 10, id' = 1,
          missingFrames = 0, color = ''#00f0ff'', velocity = (2, 0)\<rparr>,
         \<lparr>bbox = (20, 0, 10, 10), class' = ''car'', score = 8 / 10, id' = 2,
          missingFrames = 1, color = ''#ff2a6d'', velocity = (0, 0)\<rparr>],
      maxMissingFrames = 30, iouThreshold = 1 / 4\<rparr>"

definition example_detections :: "DetectedObject list" where
  "example_detections =
     [\<lparr>bbox = (3, 0, 10, 10), class' = ''person'', score = 7 / 10\<rparr>,
      \<lparr>bbox = (22, 0, 10, 10), class' = ''truck'', score = 6 / 10\<rparr>,
      \<lparr>bbox = (100, 100, 5, 5), class' = ''dog'', score = 5 / 10\<rparr>,
      \<lparr>bbox = (4, 0, 10, 10), class' = ''person'', score = 4 / 10\<rparr>]"

section \<open>The first two calls of the end-to-end scenario\<close>

definition scenario_calls :: "call list" where
  "scenario_calls =
     [Update [\<lparr>bbox = (10, 10, 20, 20), class' = ''person'', score = 9 / 10\<rparr>] (\<lambda>n. 0),
      Update [\<lparr>bbox = (15, 10, 20, 20), class' = ''person'', score = 8 / 10\<rparr>] (\<lambda>n. 0)]"

section \<open>The tracker over a store of box arrays\<close>























section \<open>Properties of the IoU\<close>

lemma overlap_dims_pos:
  fixes ax bx aw bw :: real
  assumes "max ax bx < min (ax + aw) (bx + bw)"
  shows "0 < aw \<and> 0 < bw \<and> min (ax + aw) (bx + bw) - max ax bx \<le> aw
       \<and> min (ax + aw) (bx + bw) - max ax bx \<le> bw"
  using assms by (auto simp: min_def max_def split: if_splits)

lemma inter_le_area:
  fixes dx dy aw ah :: real
  assumes "0 < dx" "dx \<le> aw" "0 < dy" "dy \<le> ah"
  shows "dx * dy \<le> aw * ah"
  using assms by (intro mult_mono) auto

lemma union_pos:
  fixes ax ay aw ah bx "by" bw bh :: real
  assumes x: "max ax bx < min (ax + aw) (bx + bw)"
    and y: "max ay by < min (ay + ah) (by + bh)"
  shows "0 < aw * ah + bw * bh
           - (min (ax + aw) (bx + bw) - max ax bx) * (min (ay + ah) (by + bh) - max ay by)"
proof -
  let ?dx = "min (ax + aw) (bx + bw) - max ax bx"
  let ?dy = "min (ay + ah) (by + bh) - max ay by"
  from overlap_dims_pos[OF x] have X: "0 < aw" "0 < bw" "?dx \<le> aw" "?dx \<le> bw" by auto
  from overlap_dims_pos[OF y] have Y: "0 < ah" "0 < bh" "?dy \<le> ah" "?dy \<le> bh" by auto
  have dx: "0 < ?dx" using x by simp
  have dy: "0 < ?dy" using y by simp
  have "?dx * ?dy \<le> aw * ah" using inter_le_area[OF dx X(3) dy Y(3)] .
  moreover have "0 < bw * bh" using X Y by simp
  ultimately show ?thesis by linarith
qed


lemma iou_sym: "calculateIoU a b = calculateIoU b a"
  by (cases a; cases b) (simp add: Let_def max.commute min.commute add.commute)

lemma iou_degenerate: "degenerate a \<Longrightarrow> calculateIoU a b = 0"
  by (cases a; cases b) (auto simp: degenerate_def Let_def min_def max_def)


lemma iou_disjoint:
  "disjoint_boxes a b \<Longrightarrow> well_formed a \<Longrightarrow> well_formed b \<Longrightarrow> calculateIoU a b = 0"
  by (cases a; cases b) (auto simp: disjoint_boxes_def well_formed_def Let_def min_def max_def)


lemma iou_range: "0 \<le> calculateIoU a b \<and> calculateIoU a b \<le> 1"
proof (cases a; cases b)
  fix ax ay aw ah bx "by" bw bh
  assume a: "a = (ax, ay, aw, ah)" and b: "b = (bx, by, bw, bh)"
  let ?dx = "min (ax + aw) (bx + bw) - max ax bx"
  let ?dy = "min (ay + ah) (by + bh) - max ay by"
  show ?thesis
  proof (cases "min (ax + aw) (bx + bw) \<le> max ax bx \<or> min (ay + ah) (by + bh) \<le> max ay by")
    case True
    then show ?thesis by (simp add: a b Let_def)
  next
    case False
    then have x: "max ax bx < min (ax + aw) (bx + bw)"
      and y: "max ay by < min (ay + ah) (by + bh)" by auto
    from overlap_dims_pos[OF x] have X: "0 < aw" "0 < bw" "?dx \<le> aw" "?dx \<le> bw" by auto
    from overlap_dims_pos[OF y] have Y: "0 < ah" "0 < bh" "?dy \<le> ah" "?dy \<le> bh" by auto
    have dx: "0 < ?dx" using x by simp
    have dy: "0 < ?dy" using y by simp
    have i: "0 < ?dx * ?dy" using dx dy by simp
    have ia: "?dx * ?dy \<le> aw * ah" using inter_le_area[OF dx X(3) dy Y(3)] .
    have ib: "?dx * ?dy \<le> bw * bh" using inter_le_area[OF dx X(4) dy Y(4)] .
    have u: "0 < aw * ah + bw * bh - ?dx * ?dy" using x y by (rule union_pos)
    have le: "?dx * ?dy \<le> aw * ah + bw * bh - ?dx * ?dy" using ia ib by linarith
    have v: "calculateIoU a b = ?dx * ?dy / (aw * ah + bw * bh - ?dx * ?dy)"
      using False u by (simp add: a b Let_def)
    show ?thesis unfolding v using i u le by simp
  qed
qed

section \<open>Rounding to the nearest double\<close>

text \<open>Rounding to an integer.\<close>

lemma rne_cases: "rne x = \<lfloor>x\<rfloor> \<or> rne x = \<lfloor>x\<rfloor> + 1"
  by (simp add: rne_def Let_def)

lemma rne_upper: "of_int (rne x) \<le> x + 1 / 2"
  unfolding rne_def Let_def by (auto simp: not_less) linarith+

lemma rne_lower: "x - 1 / 2 \<le> of_int (rne x)"
  unfolding rne_def Let_def by (auto simp: not_less) linarith+

lemma rne_of_int [simp]: "rne (of_int n) = n"
  by (simp add: rne_def)

lemma rne_mono:
  assumes "x \<le> y"
  shows "rne x \<le> rne y"
proof (rule ccontr)
  assume "\<not> rne x \<le> rne y"
  then have "rne y + 1 \<le> rne x" by simp
  then have "real_of_int (rne y) + 1 \<le> of_int (rne x)" by linarith
  moreover have "of_int (rne x) \<le> x + 1 / 2" by (rule rne_upper)
  moreover have "y - 1 / 2 \<le> of_int (rne y)" by (rule rne_lower)
  ultimately have "y \<le> x" by linarith
  then have "x = y" using assms by simp
  then show False using \<open>\<not> rne x \<le> rne y\<close> by simp
qed

lemma rne_ge_int: "of_int n \<le> x \<Longrightarrow> n \<le> rne x"
  using rne_mono[of "of_int n" x] by simp

lemma rne_le_int: "x \<le> of_int n \<Longrightarrow> rne x \<le> n"
  using rne_mono[of x "of_int n"] by simp

lemma rne_minus: "rne (- x) = - rne x"
proof (cases "x = of_int \<lfloor>x\<rfloor>")
  case True
  then obtain n :: int where "x = of_int n" by blast
  then show ?thesis by (simp flip: of_int_minus)
next
  case False
  then have "\<lceil>x\<rceil> = \<lfloor>x\<rfloor> + 1" by (simp add: ceiling_altdef)
  then have fl: "\<lfloor>- x\<rfloor> = - \<lfloor>x\<rfloor> - 1" by (simp add: floor_minus)
  have d: "0 < x - of_int \<lfloor>x\<rfloor>" using False by (simp add: less_le)
  show ?thesis
    unfolding rne_def Let_def fl
    by (auto simp: not_less)
qed

text \<open>The exponent of a real and of its last place.\<close>

lemma floor_log2_iff:
  assumes "0 < x"
  shows "(\<lfloor>log 2 x\<rfloor> = k) = (2 powi k \<le> x \<and> x < 2 powi (k + 1))"
proof -
  have a: "(2::real) powr real_of_int k = 2 powi k"
    and b: "(2::real) powr real_of_int (k + 1) = 2 powi (k + 1)"
    by (rule powr_real_of_int'; simp)+
  show ?thesis using floor_log_eq_powr_iff[OF assms, of 2 k] unfolding a b by simp
qed

lemma floor_log_bounds:
  assumes "x \<noteq> 0"
  shows "2 powi \<lfloor>log 2 \<bar>x\<bar>\<rfloor> \<le> \<bar>x\<bar>" "\<bar>x\<bar> < 2 powi (\<lfloor>log 2 \<bar>x\<bar>\<rfloor> + 1)"
proof -
  have "0 < \<bar>x\<bar>" using assms by simp
  from floor_log2_iff[OF this, of "\<lfloor>log 2 \<bar>x\<bar>\<rfloor>"]
  show "2 powi \<lfloor>log 2 \<bar>x\<bar>\<rfloor> \<le> \<bar>x\<bar>" "\<bar>x\<bar> < 2 powi (\<lfloor>log 2 \<bar>x\<bar>\<rfloor> + 1)"
    by blast+
qed

lemma floor_log_binade:
  assumes "2 powi e \<le> \<bar>x\<bar>" "\<bar>x\<bar> < 2 powi (e + 1)"
  shows "\<lfloor>log 2 \<bar>x\<bar>\<rfloor> = e"
proof -
  have "0 < (2::real) powi e" by simp
  then have "0 < \<bar>x\<bar>" using assms(1) by linarith
  from floor_log2_iff[OF this, of e] assms show ?thesis by blast
qed

lemma quantum_binade:
  assumes "2 powi e \<le> \<bar>x\<bar>" "\<bar>x\<bar> < 2 powi (e + 1)"
  shows "quantum x = max (e - 52) (- 1074)"
  unfolding quantum_def floor_log_binade[OF assms] ..

lemma quantum_mono:
  assumes "x \<noteq> 0" "\<bar>x\<bar> \<le> \<bar>y\<bar>"
  shows "quantum x \<le> quantum y"
proof -
  have "log 2 \<bar>x\<bar> \<le> log 2 \<bar>y\<bar>" using assms by simp
  then have "\<lfloor>log 2 \<bar>x\<bar>\<rfloor> \<le> \<lfloor>log 2 \<bar>y\<bar>\<rfloor>" by (rule floor_mono)
  then show ?thesis by (simp add: quantum_def)
qed

lemma quantum_minus [simp]: "quantum (- x) = quantum x"
  by (simp add: quantum_def)

lemma round_finite_minus: "round_finite (- x) = - round_finite x"
  by (simp add: round_finite_def rne_minus)

lemma round_finite_nonneg: "0 \<le> x \<Longrightarrow> 0 \<le> round_finite x"
proof -
  assume x: "0 \<le> x"
  have "0 \<le> x / 2 powi quantum x" using x by simp
  then have "0 \<le> rne (x / 2 powi quantum x)" using rne_ge_int[of 0] by simp
  then show ?thesis by (simp add: round_finite_def)
qed

text \<open>The rounded value stays within the binade, and rounding is monotone.\<close>

lemma round_finite_le_top:
  assumes "0 < x"
  shows "round_finite x \<le> 2 powi (quantum x + 53)"
proof -
  let ?q = "quantum x"
  have "\<lfloor>log 2 \<bar>x\<bar>\<rfloor> + 1 \<le> ?q + 53" by (simp add: quantum_def)
  then have "(2::real) powi (\<lfloor>log 2 \<bar>x\<bar>\<rfloor> + 1) \<le> 2 powi (?q + 53)"
    by (intro power_int_increasing) simp_all
  then have "x < 2 powi (?q + 53)" using floor_log_bounds(2)[of x] assms by simp
  then have "x / 2 powi ?q < 2 powi 53"
    by (simp add: power_int_add field_simps)
  then have "x / 2 powi ?q \<le> of_int (2 ^ 53)" by simp
  then have "rne (x / 2 powi ?q) \<le> 2 ^ 53" by (rule rne_le_int)
  then have "real_of_int (rne (x / 2 powi ?q)) \<le> real_of_int (2 ^ 53)"
    by (simp only: of_int_le_iff)
  then have "real_of_int (rne (x / 2 powi ?q)) \<le> 2 ^ 53" by simp
  then have "real_of_int (rne (x / 2 powi ?q)) * 2 powi ?q \<le> 2 ^ 53 * 2 powi ?q"
    by (intro mult_right_mono) simp_all
  then show ?thesis using assms by (simp add: round_finite_def power_int_add mult.commute)
qed

lemma round_finite_ge_bottom:
  assumes "0 < x" "- 1074 < quantum x"
  shows "2 powi (quantum x + 52) \<le> round_finite x"
proof -
  let ?q = "quantum x"
  have "?q = \<lfloor>log 2 \<bar>x\<bar>\<rfloor> - 52" using assms(2) by (simp add: quantum_def max_def split: if_splits)
  then have "\<lfloor>log 2 \<bar>x\<bar>\<rfloor> = ?q + 52" by simp
  then have "2 powi (?q + 52) \<le> x" using floor_log_bounds(1)[of x] assms(1) by simp
  then have "2 powi 52 \<le> x / 2 powi ?q"
    by (simp add: power_int_add field_simps)
  then have "of_int (2 ^ 52) \<le> x / 2 powi ?q" by simp
  then have "2 ^ 52 \<le> rne (x / 2 powi ?q)" by (rule rne_ge_int)
  then have "real_of_int (2 ^ 52) \<le> real_of_int (rne (x / 2 powi ?q))"
    by (simp only: of_int_le_iff)
  then have "2 ^ 52 \<le> real_of_int (rne (x / 2 powi ?q))" by simp
  then have "2 ^ 52 * 2 powi ?q \<le> real_of_int (rne (x / 2 powi ?q)) * 2 powi ?q"
    by (intro mult_right_mono) simp_all
  then show ?thesis using assms by (simp add: round_finite_def power_int_add mult.commute)
qed

lemma round_finite_mono_pos:
  assumes "0 < x" "x \<le> y"
  shows "round_finite x \<le> round_finite y"
proof -
  have y: "0 < y" using assms by simp
  have q: "quantum x \<le> quantum y" using assms by (intro quantum_mono) simp_all
  show ?thesis
  proof (cases "quantum x = quantum y")
    case True
    have "x / 2 powi quantum y \<le> y / 2 powi quantum y"
      using assms(2) by (simp add: divide_right_mono)
    then have "rne (x / 2 powi quantum y) \<le> rne (y / 2 powi quantum y)" by (rule rne_mono)
    then have "real_of_int (rne (x / 2 powi quantum y)) \<le> real_of_int (rne (y / 2 powi quantum y))"
      by simp
    then have "real_of_int (rne (x / 2 powi quantum y)) * 2 powi quantum y
        \<le> real_of_int (rne (y / 2 powi quantum y)) * 2 powi quantum y"
      by (intro mult_right_mono) simp_all
    then show ?thesis using assms y by (simp add: round_finite_def True)
  next
    case False
    then have lt: "quantum x + 1 \<le> quantum y" using q by simp
    have "- 1074 \<le> quantum x" by (simp add: quantum_def)
    then have "- 1074 < quantum y" using lt by simp
    from round_finite_ge_bottom[OF y this]
    have "2 powi (quantum y + 52) \<le> round_finite y" .
    moreover have "round_finite x \<le> 2 powi (quantum x + 53)"
      using assms(1) by (rule round_finite_le_top)
    moreover have "(2::real) powi (quantum x + 53) \<le> 2 powi (quantum y + 52)"
      using lt by (intro power_int_increasing) simp_all
    ultimately show ?thesis by linarith
  qed
qed

lemma round_finite_mono:
  assumes "x \<le> y"
  shows "round_finite x \<le> round_finite y"
proof -
  consider "0 < x" | "x \<le> 0" "0 \<le> y" | "y < 0" by linarith
  then show ?thesis
  proof cases
    case 1
    then show ?thesis using assms by (rule round_finite_mono_pos)
  next
    case 2
    have "round_finite x \<le> 0"
      using round_finite_nonneg[of "- x"] 2(1) by (simp add: round_finite_minus)
    moreover have "0 \<le> round_finite y" using 2(2) by (rule round_finite_nonneg)
    ultimately show ?thesis by simp
  next
    case 3
    have "round_finite (- y) \<le> round_finite (- x)"
      using 3 assms by (intro round_finite_mono_pos) simp_all
    then show ?thesis by (simp add: round_finite_minus)
  qed
qed

text \<open>The values \<open>m * 2^e\<close> with \<open>\<bar>m\<bar> < 2^53\<close> are doubles.\<close>

lemma round_finite_dyadic:
  assumes "\<bar>m\<bar> < 2 ^ 53" "- 1074 \<le> e"
  shows "round_finite (of_int m * 2 powi e) = of_int m * 2 powi e"
proof (cases "m = 0")
  case True
  then show ?thesis by (simp add: round_finite_def)
next
  case False
  let ?x = "real_of_int m * 2 powi e"
  let ?q = "quantum ?x"
  have x0: "?x \<noteq> 0" using False by simp
  have "real_of_int \<bar>m\<bar> < real_of_int (2 ^ 53)" using assms(1) by (simp only: of_int_less_iff)
  then have m: "\<bar>real_of_int m\<bar> < 2 ^ 53" by simp
  have "\<bar>?x\<bar> = \<bar>real_of_int m\<bar> * 2 powi e" by (simp add: abs_mult)
  also have "\<dots> < 2 ^ 53 * 2 powi e" using m by (intro mult_strict_right_mono) simp_all
  also have "\<dots> = 2 powi (e + 53)" by (simp add: power_int_add)
  finally have ub: "\<bar>?x\<bar> < 2 powi (e + 53)" .
  have "2 powi \<lfloor>log 2 \<bar>?x\<bar>\<rfloor> < (2::real) powi (e + 53)"
    using floor_log_bounds(1)[OF x0] ub by linarith
  then have "\<lfloor>log 2 \<bar>?x\<bar>\<rfloor> < e + 53"
    using power_int_increasing[of "e + 53" "\<lfloor>log 2 \<bar>?x\<bar>\<rfloor>" "2::real"] by (cases "\<lfloor>log 2 \<bar>?x\<bar>\<rfloor> < e + 53") auto
  then have q: "?q \<le> e" using assms(2) by (simp add: quantum_def)
  have "?x / 2 powi ?q = real_of_int m * 2 powi (e - ?q)"
    by (simp add: power_int_diff)
  also have "\<dots> = real_of_int m * 2 ^ nat (e - ?q)"
    using q by (simp add: power_int_def)
  also have "\<dots> = real_of_int (m * 2 ^ nat (e - ?q))" by simp
  finally have "rne (?x / 2 powi ?q) = m * 2 ^ nat (e - ?q)" by (simp only: rne_of_int)
  then have "round_finite ?x = real_of_int (m * 2 ^ nat (e - ?q)) * 2 powi ?q"
    using x0 by (simp add: round_finite_def)
  also have "\<dots> = real_of_int m * (2 powi (e - ?q) * 2 powi ?q)"
    using q by (simp add: power_int_def)
  also have "\<dots> = ?x" by (simp flip: power_int_add)
  finally show ?thesis .
qed

lemma is_double_dyadic:
  assumes "\<bar>m\<bar> < 2 ^ 53" "- 1074 \<le> e" "e \<le> 971"
  shows "is_double (of_int m * 2 powi e)"
proof -
  let ?x = "real_of_int m * 2 powi e"
  have "real_of_int \<bar>m\<bar> < real_of_int (2 ^ 53)" using assms(1) by (simp only: of_int_less_iff)
  then have m: "\<bar>real_of_int m\<bar> < 2 ^ 53" by simp
  have "\<bar>?x\<bar> = \<bar>real_of_int m\<bar> * 2 powi e" by (simp add: abs_mult)
  also have "\<dots> < 2 ^ 53 * 2 powi e" using m by (intro mult_strict_right_mono) simp_all
  also have "\<dots> = 2 powi (e + 53)" by (simp add: power_int_add)
  also have "\<dots> \<le> 2 powi 1024" using assms(3) by (intro power_int_increasing) simp_all
  also have "\<dots> = overflow_threshold" by (simp add: overflow_threshold_def)
  finally have "\<bar>?x\<bar> < overflow_threshold" .
  then have "\<not> overflow_threshold \<le> ?x" "\<not> ?x \<le> - overflow_threshold" by linarith+
  then show ?thesis
    unfolding is_double_def round64_def Let_def round_finite_dyadic[OF assms(1,2)] by simp
qed

lemma round_finite_binade:
  assumes "2 powi e \<le> \<bar>x\<bar>" "\<bar>x\<bar> < 2 powi (e + 1)"
  shows "round_finite x =
     of_int (rne (x / 2 powi max (e - 52) (- 1074))) * 2 powi max (e - 52) (- 1074)"
proof -
  have "0 < \<bar>x\<bar>" using assms(1) zero_less_power_int[of "2::real" e] by linarith
  then have "x \<noteq> 0" by simp
  then show ?thesis by (simp add: round_finite_def quantum_binade[OF assms])
qed

section \<open>Properties of the IoU in binary64 arithmetic\<close>

lemma round64_not_NaN [simp]: "round64 x \<noteq> NaN"
  by (simp add: round64_def Let_def)


lemma fmul_commute: "fmul a b = fmul b a"
  by (cases a; cases b) (simp_all add: mult.commute)



lemma fmax_Num [simp]: "fmax (Num x) (Num y) = Num (max x y)"
  by (simp add: fmax_def max_def)

lemma fmin_Num [simp]: "fmin (Num x) (Num y) = Num (min x y)"
  by (simp add: fmin_def min_def)

lemma fsub_Num [simp]: "fsub (Num x) (Num y) = round64 (x - y)"
  by (simp add: fsub_def)

lemma box64_simp [simp]: "box64 (x, y, w, h) = (Num x, Num y, Num w, Num h)"
  by (simp add: box64_def)


lemma iou64_total: "calculateIoU64_checked a b = Some (calculateIoU64 a b)"
  by (cases a; cases b) (simp add: Let_def fdiv_checked_def)

lemma iou64_parts:
  "calculateIoU64 a b =
     (if no_intersection64 a b then Num 0
      else fdiv (intersectionArea64 a b)
             (if unionArea64 a b = Num 0 \<or> unionArea64 a b = NaN then Num 1
              else unionArea64 a b))"
  by (cases a; cases b) (simp add: Let_def)








lemma round64_0 [simp]: "round64 0 = Num 0"
  by (simp add: round64_def round_finite_def overflow_threshold_def)

lemma iou64_exact:
  assumes "exact a b"
  shows "calculateIoU64 (box64 a) (box64 b) = round64 (calculateIoU a b)"
proof (cases a; cases b)
  fix ax ay aw ah bx "by" bw bh
  assume a: "a = (ax, ay, aw, ah)" and b: "b = (bx, by, bw, bh)"
  let ?x1 = "max ax bx" and ?y1 = "max ay by"
  let ?x2 = "min (ax + aw) (bx + bw)" and ?y2 = "min (ay + ah) (by + bh)"
  have e: "round64 (ax + aw) = Num (ax + aw)" "round64 (bx + bw) = Num (bx + bw)"
    "round64 (ay + ah) = Num (ay + ah)" "round64 (by + bh) = Num (by + bh)"
    using assms unfolding a b exact_def is_double_def Let_def by simp_all
  show ?thesis
  proof (cases "?x2 \<le> ?x1 \<or> ?y2 \<le> ?y1")
    case True
    then show ?thesis unfolding a b by (simp add: Let_def e)
  next
    case False
    let ?i = "(?x2 - ?x1) * (?y2 - ?y1)"
    let ?u = "aw * ah + bw * bh - ?i"
    have f: "round64 (?x2 - ?x1) = Num (?x2 - ?x1)" "round64 (?y2 - ?y1) = Num (?y2 - ?y1)"
      "round64 ?i = Num ?i" "round64 (aw * ah) = Num (aw * ah)"
      "round64 (bw * bh) = Num (bw * bh)" "round64 (aw * ah + bw * bh) = Num (aw * ah + bw * bh)"
      "round64 ?u = Num ?u"
      using assms False unfolding a b exact_def is_double_def Let_def by simp_all
    have t: "\<not> (fle (Num ?x2) (Num ?x1) \<or> fle (Num ?y2) (Num ?y1))" using False by simp
    have "calculateIoU64 (box64 a) (box64 b) =
        fdiv (Num ?i) (if Num ?u = Num 0 \<or> Num ?u = NaN then Num 1 else Num ?u)"
      unfolding a b box64_simp calculateIoU64.simps Let_def fadd.simps e fmin_Num fmax_Num fsub_Num
      using t by (simp only: if_False fadd.simps fmul.simps f fsub_Num)
    also have "\<dots> = round64 (?i / (if ?u = 0 then 1 else ?u))"
      by (cases "?u = 0") simp_all
    also have "\<dots> = round64 (calculateIoU a b)"
      unfolding a b using False by (simp add: Let_def)
    finally show ?thesis .
  qed
qed

lemma round64_unit:
  assumes "0 \<le> x" "x \<le> 1"
  shows "fle (Num 0) (round64 x) \<and> fle (round64 x) (Num 1)"
proof -
  have one: "round_finite 1 = 1" using round_finite_dyadic[of 1 0] by simp
  have "0 \<le> round_finite x" using assms(1) by (rule round_finite_nonneg)
  moreover have "round_finite x \<le> 1" using round_finite_mono[OF assms(2)] one by simp
  moreover have "(1::real) < overflow_threshold" by (simp add: overflow_threshold_def)
  ultimately show ?thesis by (simp add: round64_def Let_def)
qed

section \<open>The results of the operations lie on the grid of the doubles\<close>

lemma round_finite_abs_le_top:
  assumes "x \<noteq> 0"
  shows "\<bar>round_finite x\<bar> \<le> 2 powi (quantum x + 53)"
proof (cases "0 < x")
  case True
  then show ?thesis
    using round_finite_le_top[of x] round_finite_nonneg[of x] by simp
next
  case False
  then have n: "0 < - x" using assms by simp
  show ?thesis
    using round_finite_le_top[OF n] round_finite_nonneg[of "- x"] n
    by (simp add: round_finite_minus)
qed

lemma round_finite_abs_ge_bottom:
  assumes "x \<noteq> 0" "- 1074 < quantum x"
  shows "2 powi (quantum x + 52) \<le> \<bar>round_finite x\<bar>"
proof (cases "0 < x")
  case True
  then show ?thesis using round_finite_ge_bottom[of x] assms(2) by simp
next
  case False
  then have n: "0 < - x" using assms by simp
  show ?thesis
    using round_finite_ge_bottom[OF n] assms(2) by (simp add: round_finite_minus)
qed

lemma round_finite_pow2:
  assumes "- 1074 \<le> k"
  shows "round_finite (2 powi k) = 2 powi k"
  using round_finite_dyadic[of 1 k] assms by simp

lemma round_finite_abs_ge:
  assumes "2 powi k \<le> \<bar>x\<bar>" "- 1074 \<le> k"
  shows "2 powi k \<le> \<bar>round_finite x\<bar>"
proof (cases "0 \<le> x")
  case True
  then have "2 powi k \<le> x" using assms(1) by simp
  from round_finite_mono[OF this] have "2 powi k \<le> round_finite x"
    by (simp add: round_finite_pow2[OF assms(2)])
  then show ?thesis by simp
next
  case False
  then have "2 powi k \<le> - x" using assms(1) by simp
  from round_finite_mono[OF this] have "2 powi k \<le> - round_finite x"
    by (simp add: round_finite_pow2[OF assms(2)] round_finite_minus)
  then show ?thesis by simp
qed

lemma round_finite_abs_le:
  assumes "\<bar>x\<bar> \<le> 2 powi k" "- 1074 \<le> k"
  shows "\<bar>round_finite x\<bar> \<le> 2 powi k"
proof -
  have "x \<le> 2 powi k" "- (2 powi k) \<le> x" using assms(1) by linarith+
  from round_finite_mono[OF this(1)] round_finite_mono[OF this(2)]
  have "round_finite x \<le> 2 powi k" "- (2 powi k) \<le> round_finite x"
    by (simp_all add: round_finite_pow2[OF assms(2)] round_finite_minus)
  then show ?thesis by linarith
qed

text \<open>
  A finite result \<open>y\<close> of an operation is a multiple of \<open>2^g\<close> for an exponent \<open>g\<close> that fits
  its size.
\<close>

lemma double_grid:
  assumes "round64 x = Num y"
  obtains m g where "y = of_int m * 2 powi g" "- 1074 \<le> g" "\<bar>y\<bar> \<le> 2 powi (g + 53)"
    "- 1074 < g \<Longrightarrow> 2 powi (g + 52) \<le> \<bar>y\<bar>"
proof (cases "x = 0")
  case True
  then have "y = 0" using assms by (simp add: round64_def round_finite_def Let_def split: if_splits)
  then have "y = of_int 0 * 2 powi (- 1074)" "\<bar>y\<bar> \<le> 2 powi (- 1074 + 53)" by simp_all
  then show ?thesis using that[of 0 "- 1074"] by simp
next
  case False
  have y: "y = round_finite x" using assms by (simp add: round64_def Let_def split: if_splits)
  have 1: "y = of_int (rne (x / 2 powi quantum x)) * 2 powi quantum x"
    using False by (simp add: y round_finite_def)
  have 2: "- 1074 \<le> quantum x" by (simp add: quantum_def)
  have 3: "\<bar>y\<bar> \<le> 2 powi (quantum x + 53)"
    unfolding y using False by (rule round_finite_abs_le_top)
  have 4: "- 1074 < quantum x \<Longrightarrow> 2 powi (quantum x + 52) \<le> \<bar>y\<bar>"
    unfolding y using False by (rule round_finite_abs_ge_bottom)
  from that[OF 1 2 3 4] show ?thesis .
qed

lemma grid_coarser:
  assumes "k \<le> g"
  shows "\<exists>n. real_of_int m * 2 powi g = of_int n * 2 powi k"
proof -
  have "(2::real) powi g = 2 powi (g - k) * 2 powi k" by (simp flip: power_int_add)
  also have "(2::real) powi (g - k) = 2 ^ nat (g - k)" using assms by (simp add: power_int_def)
  finally have "real_of_int m * 2 powi g = of_int (m * 2 ^ nat (g - k)) * 2 powi k" by simp
  then show ?thesis by blast
qed

lemma grid_diff_ge:
  assumes "s = real_of_int ms * 2 powi gs" "i = real_of_int mi * 2 powi gi"
    "k \<le> gs" "k \<le> gi" "s \<noteq> i"
  shows "2 powi k \<le> \<bar>s - i\<bar>"
proof -
  from grid_coarser[OF assms(3), of ms] obtain a where a: "s = of_int a * 2 powi k"
    unfolding assms(1) by blast
  from grid_coarser[OF assms(4), of mi] obtain b where b: "i = of_int b * 2 powi k"
    unfolding assms(2) by blast
  have d: "s - i = of_int (a - b) * 2 powi k" by (simp add: a b algebra_simps)
  have "a \<noteq> b" using assms(5) a b by auto
  then have "1 \<le> \<bar>a - b\<bar>" by simp
  then have "1 \<le> \<bar>real_of_int (a - b)\<bar>" by linarith
  then have "1 * 2 powi k \<le> \<bar>real_of_int (a - b)\<bar> * 2 powi k"
    by (intro mult_right_mono) simp_all
  then show ?thesis unfolding d by (simp add: abs_mult)
qed

text \<open>
  The difference of two doubles, when it is not 0, is not small against either of them: the
  quotient of the IoU stays below \<open>2^54\<close>.
\<close>

lemma difference_not_small:
  assumes "round64 xi = Num i" "round64 xs = Num s" "s \<noteq> i"
  shows "\<exists>k. - 1074 \<le> k \<and> 2 powi k \<le> \<bar>s - i\<bar> \<and> \<bar>i\<bar> \<le> 2 powi (k + 54)"
proof -
  from double_grid[OF assms(1)] obtain mi gi where
    i: "i = of_int mi * 2 powi gi" "- 1074 \<le> gi" "\<bar>i\<bar> \<le> 2 powi (gi + 53)"
      "- 1074 < gi \<Longrightarrow> 2 powi (gi + 52) \<le> \<bar>i\<bar>"
    by blast
  from double_grid[OF assms(2)] obtain ms gs where
    s: "s = of_int ms * 2 powi gs" "- 1074 \<le> gs" "\<bar>s\<bar> \<le> 2 powi (gs + 53)"
      "- 1074 < gs \<Longrightarrow> 2 powi (gs + 52) \<le> \<bar>s\<bar>"
    by blast
  show ?thesis
  proof (cases "gi - 1 \<le> gs")
    case True
    let ?k = "max (gi - 1) (- 1074)"
    have k: "?k \<le> gs" "?k \<le> gi" "- 1074 \<le> ?k" "gi + 53 \<le> ?k + 54"
      using True i(2) s(2) by simp_all
    have "2 powi ?k \<le> \<bar>s - i\<bar>" using s(1) i(1) k(1,2) assms(3) by (rule grid_diff_ge)
    moreover have "(2::real) powi (gi + 53) \<le> 2 powi (?k + 54)"
      using k(4) by (intro power_int_increasing) simp_all
    then have "\<bar>i\<bar> \<le> 2 powi (?k + 54)" using i(3) by linarith
    ultimately show ?thesis using k(3) by blast
  next
    case False
    then have g: "gs + 2 \<le> gi" by simp
    then have "- 1074 < gi" using s(2) by simp
    from i(4)[OF this] have lo: "2 powi (gi + 52) \<le> \<bar>i\<bar>" .
    have "(2::real) powi (gs + 53) \<le> 2 powi (gi + 51)"
      using g by (intro power_int_increasing) simp_all
    then have hi: "\<bar>s\<bar> \<le> 2 powi (gi + 51)" using s(3) by linarith
    have "(2::real) powi (gi + 52) = 2 * 2 powi (gi + 51)"
      by (simp add: power_int_add)
    then have "2 powi (gi + 51) \<le> \<bar>s - i\<bar>" using lo hi by linarith
    moreover have "(2::real) powi (gi + 53) \<le> 2 powi (gi + 51 + 54)"
      by (intro power_int_increasing) simp_all
    then have "\<bar>i\<bar> \<le> 2 powi (gi + 51 + 54)" using i(3) by linarith
    moreover have "- 1074 \<le> gi + 51" using i(2) by simp
    ultimately show ?thesis by blast
  qed
qed

lemma quotient_finite:
  assumes "round64 xi = Num i" "round64 xs = Num s" "round64 (s - i) = Num u" "u \<noteq> 0"
  shows "\<exists>r. round64 (i / u) = Num r"
proof -
  have u: "u = round_finite (s - i)"
    using assms(3) by (simp add: round64_def Let_def split: if_splits)
  have "s \<noteq> i" using assms(4) by (auto simp: u round_finite_def)
  from difference_not_small[OF assms(1,2) this] obtain k where
    k: "- 1074 \<le> k" "2 powi k \<le> \<bar>s - i\<bar>" "\<bar>i\<bar> \<le> 2 powi (k + 54)"
    by blast
  have lo: "2 powi k \<le> \<bar>u\<bar>" unfolding u using k(2,1) by (rule round_finite_abs_ge)
  have "\<bar>i\<bar> \<le> 2 powi 54 * 2 powi k" using k(3) by (simp add: power_int_add mult.commute)
  also have "\<dots> \<le> 2 powi 54 * \<bar>u\<bar>" using lo by (intro mult_left_mono) simp_all
  finally have "\<bar>i\<bar> / \<bar>u\<bar> \<le> 2 powi 54" using assms(4) by (simp add: field_simps)
  then have "\<bar>i / u\<bar> \<le> 2 powi 54" by simp
  then have "\<bar>round_finite (i / u)\<bar> \<le> 2 powi 54" by (rule round_finite_abs_le) simp
  moreover have "(2::real) powi 54 < overflow_threshold" by (simp add: overflow_threshold_def)
  ultimately have "\<not> overflow_threshold \<le> round_finite (i / u)"
    "\<not> round_finite (i / u) \<le> - overflow_threshold"
    by linarith+
  then show ?thesis by (simp add: round64_def Let_def)
qed

text \<open>Rounding a double gives that double.\<close>

lemma rne_quantum_bound:
  assumes "x \<noteq> 0"
  shows "\<bar>rne (x / 2 powi quantum x)\<bar> \<le> 2 ^ 53"
proof -
  have "\<bar>round_finite x\<bar> \<le> 2 powi (quantum x + 53)" using assms by (rule round_finite_abs_le_top)
  then have "\<bar>real_of_int (rne (x / 2 powi quantum x))\<bar> * 2 powi quantum x
      \<le> 2 ^ 53 * 2 powi quantum x"
    using assms by (simp add: round_finite_def abs_mult power_int_add mult.commute)
  then have "\<bar>real_of_int (rne (x / 2 powi quantum x))\<bar> \<le> 2 ^ 53" by simp
  then have "real_of_int \<bar>rne (x / 2 powi quantum x)\<bar> \<le> real_of_int (2 ^ 53)" by simp
  then show ?thesis by (simp only: of_int_le_iff)
qed

lemma round_finite_idem: "round_finite (round_finite x) = round_finite x"
proof (cases "x = 0")
  case True
  then show ?thesis by (simp add: round_finite_def)
next
  case False
  let ?m = "rne (x / 2 powi quantum x)"
  let ?q = "quantum x"
  have r: "round_finite x = of_int ?m * 2 powi ?q" using False by (simp add: round_finite_def)
  have q: "- 1074 \<le> ?q" by (simp add: quantum_def)
  have b: "\<bar>?m\<bar> \<le> 2 ^ 53" using False by (rule rne_quantum_bound)
  show ?thesis
  proof (cases "\<bar>?m\<bar> < 2 ^ 53")
    case True
    from round_finite_dyadic[OF True q] show ?thesis unfolding r .
  next
    case False
    then have "\<bar>?m\<bar> = 2 ^ 53" using b by simp
    then consider "?m = 2 ^ 53" | "?m = - (2 ^ 53)" by linarith
    then show ?thesis
    proof cases
      case 1
      have e: "real_of_int ?m * 2 powi ?q = of_int (2 ^ 52) * 2 powi (?q + 1)"
        unfolding 1 by (simp add: power_int_add)
      from round_finite_dyadic[of "2 ^ 52" "?q + 1"] q show ?thesis unfolding r e by simp
    next
      case 2
      have e: "real_of_int ?m * 2 powi ?q = of_int (- (2 ^ 52)) * 2 powi (?q + 1)"
        unfolding 2 by (simp add: power_int_add)
      from round_finite_dyadic[of "- (2 ^ 52)" "?q + 1"] q show ?thesis unfolding r e by simp
    qed
  qed
qed

lemma round64_is_double:
  assumes "round64 x = Num y"
  shows "is_double y"
proof -
  have y: "y = round_finite x" "\<not> overflow_threshold \<le> y" "\<not> y \<le> - overflow_threshold"
    using assms by (auto simp: round64_def Let_def split: if_splits)
  have "round_finite y = y" unfolding y(1) by (rule round_finite_idem)
  then show ?thesis using y(2,3) by (simp add: is_double_def round64_def Let_def)
qed

text \<open>A finite result of an addition or of a multiplication is the rounding of a real.\<close>

lemma fadd_Num: "fadd a b = Num s \<Longrightarrow> \<exists>x. round64 x = Num s"
  by (cases a; cases b) auto

lemma fmul_Num: "fmul a b = Num i \<Longrightarrow> \<exists>x. round64 x = Num i"
  by (cases a; cases b) (auto split: if_splits)

lemma fsub_Num_left: "fsub a (Num i) = Num u \<Longrightarrow> \<exists>s. a = Num s \<and> round64 (s - i) = Num u"
  by (cases a) (auto simp: fsub_def)

lemma iou64_finite:
  assumes "intersectionArea64 p q = Num i" "unionArea64 p q = Num u"
  shows "\<exists>r. calculateIoU64 p q = Num r"
proof (cases "no_intersection64 p q")
  case True
  then show ?thesis by (simp add: iou64_parts)
next
  case False
  obtain ax ay aw ah bx "by" bw bh where p: "p = (ax, ay, aw, ah)" and q: "q = (bx, by, bw, bh)"
    by (cases p; cases q) blast
  from assms(1) obtain xi where xi: "round64 xi = Num i"
    unfolding p q intersectionArea64.simps using fmul_Num by blast
  have "fsub (fadd (fmul aw ah) (fmul bw bh)) (Num i) = Num u"
    using assms unfolding p q unionArea64.simps by simp
  from fsub_Num_left[OF this] obtain s where
    s: "fadd (fmul aw ah) (fmul bw bh) = Num s" "round64 (s - i) = Num u"
    by blast
  from fadd_Num[OF s(1)] obtain xs where xs: "round64 xs = Num s" by blast
  show ?thesis
  proof (cases "u = 0")
    case True
    have "round64 i = Num i" using round64_is_double[OF xi] by (simp add: is_double_def)
    then show ?thesis using False True assms by (simp add: iou64_parts)
  next
    case nz: False
    from quotient_finite[OF xi xs s(2) nz] obtain r where "round64 (i / u) = Num r" by blast
    then show ?thesis using False nz assms by (simp add: iou64_parts)
  qed
qed

text \<open>The value is finite exactly when the overlap test fails or the intersection area is finite.\<close>

lemma fdiv_not_finite: "\<not> isFinite a \<Longrightarrow> \<not> isFinite (fdiv a d)"
  by (cases a; cases d) auto

lemma iou64_finite_iff:
  "isFinite (calculateIoU64 p q) = (no_intersection64 p q \<or> isFinite (intersectionArea64 p q))"
proof (cases "no_intersection64 p q")
  case True
  then show ?thesis by (simp add: iou64_parts)
next
  case False
  show ?thesis
  proof (cases "isFinite (intersectionArea64 p q)")
    case fin: True
    then obtain i where i: "intersectionArea64 p q = Num i"
      by (cases "intersectionArea64 p q") simp_all
    have d: "round64 i = Num i"
    proof -
      obtain ax ay aw ah bx "by" bw bh where pq: "p = (ax, ay, aw, ah)" "q = (bx, by, bw, bh)"
        by (cases p; cases q) blast
      from i obtain xi where "round64 xi = Num i"
        unfolding pq intersectionArea64.simps using fmul_Num by blast
      from round64_is_double[OF this] show ?thesis by (simp add: is_double_def)
    qed
    have "isFinite (calculateIoU64 p q)"
    proof (cases "unionArea64 p q")
      case (Num u)
      from iou64_finite[OF i this] show ?thesis by auto
    next
      case PInf
      then show ?thesis using False i by (simp add: iou64_parts)
    next
      case NInf
      then show ?thesis using False i by (simp add: iou64_parts)
    next
      case NaN
      then show ?thesis using False i d by (simp add: iou64_parts)
    qed
    then show ?thesis using fin by simp
  next
    case inf: False
    then have "\<not> isFinite (calculateIoU64 p q)"
      using False by (simp add: iou64_parts fdiv_not_finite)
    then show ?thesis using False inf by simp
  qed
qed

text \<open>Coordinates of moderate size: no operation overflows.\<close>

lemma round64_bounded:
  assumes "\<bar>x\<bar> \<le> 2 powi k" "- 1074 \<le> k" "k \<le> 1023"
  shows "\<exists>r. round64 x = Num r \<and> \<bar>r\<bar> \<le> 2 powi k"
proof -
  have b: "\<bar>round_finite x\<bar> \<le> 2 powi k" using assms(1,2) by (rule round_finite_abs_le)
  have "(2::real) powi k \<le> 2 powi 1023" using assms(3) by (intro power_int_increasing) simp_all
  moreover have "(2::real) powi 1023 < overflow_threshold" by (simp add: overflow_threshold_def)
  ultimately have "\<not> overflow_threshold \<le> round_finite x"
    "\<not> round_finite x \<le> - overflow_threshold"
    using b by linarith+
  then show ?thesis using b by (simp add: round64_def Let_def)
qed

lemma axis_bounded:
  assumes "\<bar>ax\<bar> \<le> 2 powi k" "\<bar>aw\<bar> \<le> 2 powi k" "\<bar>bx\<bar> \<le> 2 powi k" "\<bar>bw\<bar> \<le> 2 powi k"
    and k: "- 1074 \<le> k" "k \<le> 1021"
  shows "\<exists>d. fsub (fmin (fadd (Num ax) (Num aw)) (fadd (Num bx) (Num bw))) (fmax (Num ax) (Num bx))
             = Num d \<and> \<bar>d\<bar> \<le> 2 powi (k + 2)"
proof -
  have two: "(2::real) powi (k + 1) = 2 * 2 powi k" "(2::real) powi (k + 2) = 4 * 2 powi k"
    by (simp_all add: power_int_add)
  have k1: "- 1074 \<le> k + 1" "k + 1 \<le> 1023" "- 1074 \<le> k + 2" "k + 2 \<le> 1023"
    using k by simp_all
  have "\<bar>ax + aw\<bar> \<le> 2 powi (k + 1)" using assms(1,2) unfolding two by linarith
  from round64_bounded[OF this k1(1,2)] obtain r1 where
    r1: "round64 (ax + aw) = Num r1" "\<bar>r1\<bar> \<le> 2 powi (k + 1)" by blast
  have "\<bar>bx + bw\<bar> \<le> 2 powi (k + 1)" using assms(3,4) unfolding two by linarith
  from round64_bounded[OF this k1(1,2)] obtain r2 where
    r2: "round64 (bx + bw) = Num r2" "\<bar>r2\<bar> \<le> 2 powi (k + 1)" by blast
  have "\<bar>min r1 r2\<bar> \<le> 2 * 2 powi k" using r1(2) r2(2) unfolding two by linarith
  moreover have "\<bar>max ax bx\<bar> \<le> 2 powi k" using assms(1,3) by linarith
  ultimately have "\<bar>min r1 r2 - max ax bx\<bar> \<le> 2 powi (k + 2)" unfolding two by linarith
  from round64_bounded[OF this k1(3,4)] obtain d where
    d: "round64 (min r1 r2 - max ax bx) = Num d" "\<bar>d\<bar> \<le> 2 powi (k + 2)" by blast
  have "fsub (fmin (fadd (Num ax) (Num aw)) (fadd (Num bx) (Num bw))) (fmax (Num ax) (Num bx))
      = Num d"
    by (simp only: fadd.simps r1(1) r2(1) fmin_Num fmax_Num fsub_Num d(1))
  then show ?thesis using d(2) by blast
qed

lemma iou64_moderate:
  assumes "moderate a" "moderate b"
  shows "isFinite (calculateIoU64 (box64 a) (box64 b))"
proof -
  obtain ax ay aw ah bx "by" bw bh where a: "a = (ax, ay, aw, ah)" and b: "b = (bx, by, bw, bh)"
    by (cases a; cases b) blast
  have c: "coordinate_bound = 2 powi 509" by (simp add: coordinate_bound_def)
  have m: "\<bar>ax\<bar> \<le> 2 powi 509" "\<bar>ay\<bar> \<le> 2 powi 509" "\<bar>aw\<bar> \<le> 2 powi 509" "\<bar>ah\<bar> \<le> 2 powi 509"
    "\<bar>bx\<bar> \<le> 2 powi 509" "\<bar>by\<bar> \<le> 2 powi 509" "\<bar>bw\<bar> \<le> 2 powi 509" "\<bar>bh\<bar> \<le> 2 powi 509"
    using assms unfolding a b moderate_def c prod.case by blast+
  have k: "- 1074 \<le> (509::int)" "(509::int) \<le> 1021" by simp_all
  from axis_bounded[OF m(1,3,5,7) k] obtain dx where
    dx: "fsub (fmin (fadd (Num ax) (Num aw)) (fadd (Num bx) (Num bw))) (fmax (Num ax) (Num bx))
          = Num dx" "\<bar>dx\<bar> \<le> 2 powi (509 + 2)"
    by blast
  from axis_bounded[OF m(2,4,6,8) k] obtain dy where
    dy: "fsub (fmin (fadd (Num ay) (Num ah)) (fadd (Num by) (Num bh))) (fmax (Num ay) (Num by))
          = Num dy" "\<bar>dy\<bar> \<le> 2 powi (509 + 2)"
    by blast
  have "\<bar>dx\<bar> * \<bar>dy\<bar> \<le> 2 powi (509 + 2) * 2 powi (509 + 2)"
    using dx(2) dy(2) by (intro mult_mono) simp_all
  also have "\<dots> = 2 powi (509 + 2 + (509 + 2))" by (rule power_int_add[symmetric]) simp
  finally have "\<bar>dx * dy\<bar> \<le> 2 powi (509 + 2 + (509 + 2))" by (simp only: abs_mult)
  from round64_bounded[OF this] obtain i where "round64 (dx * dy) = Num i" by auto
  then have "intersectionArea64 (box64 a) (box64 b) = Num i"
    unfolding a b box64_simp intersectionArea64.simps dx(1) dy(1) by simp
  then show ?thesis by (simp add: iou64_finite_iff)
qed

section \<open>The IoU of four boxes\<close>

lemma round64_binade:
  assumes "2 powi e \<le> \<bar>x\<bar>" "\<bar>x\<bar> < 2 powi (e + 1)"
  shows "round64 x =
     (let r = of_int (rne (x / 2 powi max (e - 52) (- 1074))) * 2 powi max (e - 52) (- 1074)
      in if overflow_threshold \<le> r then PInf
         else if r \<le> - overflow_threshold then NInf else Num r)"
  by (simp add: round64_def round_finite_binade[OF assms])


lemma is_double_round64: "is_double x \<Longrightarrow> round64 x = Num x"
  by (simp add: is_double_def)

lemma is_double_nat:
  assumes "n < 2 ^ 53"
  shows "is_double (of_nat n)"
proof -
  have "\<bar>int n\<bar> < 2 ^ 53" using assms by (simp add: nat_less_iff flip: of_nat_less_iff)
  from is_double_dyadic[OF this, of 0] show ?thesis by simp
qed

lemma is_double_0 [simp]: "is_double 0"
  using is_double_nat[of 0] by simp

lemma is_double_1 [simp]: "is_double 1"
  using is_double_nat[of 1] by simp

lemma is_double_numeral: "numeral k < (2 ^ 53 :: nat) \<Longrightarrow> is_double (numeral k)"
  using is_double_nat[of "numeral k"] by simp

lemma is_double_quarter: "is_double (1 / 4)"
  using is_double_dyadic[of 1 "- 2"] by simp



lemma round64_tie: "round64 9007199254740995 = Num 9007199254740996"
  using round64_binade[of 53 9007199254740995] by (simp add: rne_def overflow_threshold_def)

lemma cancel_parts:
  "\<not> no_intersection64 (box64 cancel_box) (box64 cancel_box)
   \<and> intersectionArea64 (box64 cancel_box) (box64 cancel_box) = Num 2
   \<and> unionArea64 (box64 cancel_box) (box64 cancel_box) = Num 0"
  by (simp add: cancel_box_def round64_tie is_double_round64 is_double_numeral)


lemma iou64_huge: "calculateIoU64 (box64 huge_box) (box64 huge_box) = PInf"
proof -
  define w :: real where "w = 2 ^ 600"
  have r1: "round64 (0 + w) = Num w"
    using is_double_dyadic[of 1 600] by (simp add: is_double_def w_def)
  have r2: "round64 (w - 0) = Num w"
    using is_double_dyadic[of 1 600] by (simp add: is_double_def w_def)
  have r3: "round64 (w * w) = PInf"
    using round64_binade[of 1200 "w * w"] by (simp add: w_def rne_def overflow_threshold_def)
  have t: "\<not> w \<le> 0" by (simp add: w_def)
  have s: "fsub PInf PInf = NaN" by (simp add: fsub_def)
  show ?thesis
    unfolding huge_box_def box64_simp calculateIoU64.simps Let_def w_def[symmetric]
    by (simp only: fadd.simps r1 fmin_Num fmax_Num min.idem max.idem fle.simps t fsub_Num r2
        fmul.simps r3 s number.inject number.distinct fdiv.simps
        simp_thms if_True if_False zero_le_one)
qed

lemma iou64_nan: "calculateIoU64 (box64 nan_box) (box64 nan_box) = NaN"
proof -
  define x :: real where "x = 2 ^ 564 + 2 ^ 512"
  define w :: real where "w = 2 ^ 511"
  define x2 :: real where "x2 = 2 ^ 564 + 2 ^ 513"
  define d :: real where "d = 2 ^ 512"
  define ar :: real where "ar = 2 ^ 1022"
  define sm :: real where "sm = 2 ^ 1023"
  have r1: "round64 (x + w) = Num x2"
    using round64_binade[of 564 "x + w"]
    by (simp add: x_def w_def x2_def rne_def overflow_threshold_def)
  have r2: "round64 (x2 - x) = Num d"
    using is_double_dyadic[of 1 512] by (simp add: is_double_def x2_def x_def d_def)
  have r3: "round64 (d * d) = PInf"
    using round64_binade[of 1024 "d * d"] by (simp add: d_def rne_def overflow_threshold_def)
  have r4: "round64 (w * w) = Num ar"
    using round64_binade[of 1022 "w * w"]
    by (simp add: w_def ar_def rne_def overflow_threshold_def)
  have r5: "round64 (ar + ar) = Num sm"
    using round64_binade[of 1023 "ar + ar"]
    by (simp add: ar_def sm_def rne_def overflow_threshold_def)
  have t: "\<not> x2 \<le> x" by (simp add: x2_def x_def)
  have s: "fsub (Num sm) PInf = NInf" by (simp add: fsub_def)
  show ?thesis
    unfolding nan_box_def box64_simp calculateIoU64.simps Let_def x_def[symmetric] w_def[symmetric]
    by (simp only: fadd.simps r1 fmin_Num fmax_Num min.idem max.idem fle.simps t fsub_Num r2
        fmul.simps r3 r4 r5 s number.inject number.distinct fdiv.simps
        simp_thms if_True if_False)
qed



lemma doubles_huge_box: "doubles huge_box"
  using is_double_dyadic[of 1 600] by (simp add: doubles_def huge_box_def)

lemma doubles_nan_box: "doubles nan_box"
  using is_double_dyadic[of "2 ^ 52 + 1" 512] is_double_dyadic[of 1 511]
  by (simp add: doubles_def nan_box_def)


lemma moderate_small: "moderate (0, 0, 4, 4)" "moderate (1, 1, 2, 2)"
  by (simp_all add: moderate_def coordinate_bound_def)

lemma exact_small: "exact (0, 0, 4, 4) (1, 1, 2, 2)" "exact (0, 0, 4, 4) (0, 0, 4, 4)"
  by (simp_all add: exact_def Let_def is_double_numeral)

lemma iou64_small:
  "calculateIoU64 (box64 (0, 0, 4, 4)) (box64 (1, 1, 2, 2)) = Num (1 / 4)"
  using iou64_exact[OF exact_small(1)] by (simp add: Let_def is_double_round64 is_double_quarter)

section \<open>Correctness of the IoU\<close>




section \<open>The division of the IoU\<close>

text \<open>
  Claim C10, amended. \<open>calculateIoU64\<close> never divides by zero and returns a value on every
  pair of boxes, whatever numbers they hold (negative widths and heights, infinities and
  \<^verbatim>\<open>NaN\<close> included): the checked function returns the value of the function. The value is 0
  when the overlap test fails; when the test passes and the computed union area is 0 or
  \<^verbatim>\<open>NaN\<close>, the divisor is 1; otherwise the divisor is the union area, which is not 0. The
  value is a finite number exactly when the overlap test fails or the computed intersection
  area is finite. It is finite for all boxes whose coordinates are at most \<open>2^509\<close> in
  magnitude, and it lies between 0 and 1 when no addition, subtraction or multiplication of
  the computation rounds.
\<close>

theorem calculateIoU64_total:
  "calculateIoU64_checked p q = Some (calculateIoU64 p q)
   \<and> (no_intersection64 p q \<longrightarrow> calculateIoU64 p q = Num 0)
   \<and> (\<not> no_intersection64 p q \<and> (unionArea64 p q = Num 0 \<or> unionArea64 p q = NaN) \<longrightarrow>
        calculateIoU64 p q = fdiv (intersectionArea64 p q) (Num 1))
   \<and> (\<not> no_intersection64 p q \<and> unionArea64 p q \<noteq> Num 0 \<and> unionArea64 p q \<noteq> NaN \<longrightarrow>
        calculateIoU64 p q = fdiv (intersectionArea64 p q) (unionArea64 p q))
   \<and> (isFinite (calculateIoU64 p q) \<longleftrightarrow>
        no_intersection64 p q \<or> isFinite (intersectionArea64 p q))
   \<and> (moderate a \<and> moderate b \<longrightarrow> isFinite (calculateIoU64 (box64 a) (box64 b)))
   \<and> (exact a b \<longrightarrow>
        fle (Num 0) (calculateIoU64 (box64 a) (box64 b))
        \<and> fle (calculateIoU64 (box64 a) (box64 b)) (Num 1))"
proof -
  have e: "exact a b \<longrightarrow>
      fle (Num 0) (calculateIoU64 (box64 a) (box64 b))
      \<and> fle (calculateIoU64 (box64 a) (box64 b)) (Num 1)"
    using iou64_exact[of a b] round64_unit[of "calculateIoU a b"] iou_range[of a b] by simp
  have m: "moderate a \<and> moderate b \<longrightarrow> isFinite (calculateIoU64 (box64 a) (box64 b))"
    using iou64_moderate[of a b] by simp
  have f: "isFinite (calculateIoU64 p q) \<longleftrightarrow>
      no_intersection64 p q \<or> isFinite (intersectionArea64 p q)"
    by (rule iou64_finite_iff)
  have d: "(no_intersection64 p q \<longrightarrow> calculateIoU64 p q = Num 0)
      \<and> (\<not> no_intersection64 p q \<and> (unionArea64 p q = Num 0 \<or> unionArea64 p q = NaN) \<longrightarrow>
           calculateIoU64 p q = fdiv (intersectionArea64 p q) (Num 1))
      \<and> (\<not> no_intersection64 p q \<and> unionArea64 p q \<noteq> Num 0 \<and> unionArea64 p q \<noteq> NaN \<longrightarrow>
           calculateIoU64 p q = fdiv (intersectionArea64 p q) (unionArea64 p q))"
    using iou64_parts[of p q] by simp
  from iou64_total[of p q] d f m e show ?thesis by blast
qed

text \<open>
  The value need not be finite. A box of width and height \<open>2^600\<close> against itself gives
  \<^verbatim>\<open>Infinity\<close>: the areas overflow, the union area is \<^verbatim>\<open>NaN\<close> and the divisor is 1. The box
  \<^verbatim>\<open>[2^564 + 2^512, 2^564 + 2^512, 2^511, 2^511]\<close> against itself gives \<^verbatim>\<open>NaN\<close>: the
  intersection area overflows, the union area is \<^verbatim>\<open>-Infinity\<close>.
\<close>

theorem overflow_counterexample:
  "doubles huge_box \<and> well_formed huge_box
   \<and> calculateIoU64 (box64 huge_box) (box64 huge_box) = PInf
   \<and> \<not> isFinite (calculateIoU64 (box64 huge_box) (box64 huge_box))
   \<and> doubles nan_box \<and> well_formed nan_box
   \<and> calculateIoU64 (box64 nan_box) (box64 nan_box) = NaN
   \<and> \<not> isFinite (calculateIoU64 (box64 nan_box) (box64 nan_box))"
proof -
  have "well_formed huge_box" "well_formed nan_box"
    by (simp_all add: well_formed_def huge_box_def nan_box_def)
  then show ?thesis
    using doubles_huge_box doubles_nan_box iou64_huge iou64_nan by simp
qed

theorem calculateIoU64_total_witness:
  "\<not> no_intersection64 (box64 cancel_box) (box64 cancel_box)
   \<and> unionArea64 (box64 cancel_box) (box64 cancel_box) = Num 0
   \<and> intersectionArea64 (box64 cancel_box) (box64 cancel_box) = Num 2
   \<and> calculateIoU64_checked (box64 cancel_box) (box64 cancel_box) = Some (Num 2)
   \<and> isFinite (calculateIoU64 (box64 cancel_box) (box64 cancel_box))
   \<and> exact (0, 0, 4, 4) (1, 1, 2, 2) \<and> moderate (0, 0, 4, 4) \<and> moderate (1, 1, 2, 2)
   \<and> calculateIoU64_checked (box64 (0, 0, 4, 4)) (box64 (1, 1, 2, 2)) = Some (Num (1 / 4))
   \<and> isFinite (calculateIoU64 (box64 (0, 0, 4, 4)) (box64 (1, 1, 2, 2)))
   \<and> fle (Num 0) (Num (1 / 4)) \<and> fle (Num (1 / 4)) (Num 1)"
proof -
  note A = calculateIoU64_total[of "box64 cancel_box" "box64 cancel_box" "(0, 0, 4, 4)"
      "(1, 1, 2, 2)"]
  note B = calculateIoU64_total[of "box64 (0, 0, 4, 4)" "box64 (1, 1, 2, 2)" "(0, 0, 4, 4)"
      "(1, 1, 2, 2)"]
  have d: "fdiv (Num 2) (Num 1) = Num 2" by (simp add: is_double_round64 is_double_numeral)
  have "calculateIoU64 (box64 cancel_box) (box64 cancel_box) = Num 2"
    using A cancel_parts d by simp
  then have a: "calculateIoU64_checked (box64 cancel_box) (box64 cancel_box) = Some (Num 2)"
    using A by simp
  have b: "calculateIoU64_checked (box64 (0, 0, 4, 4)) (box64 (1, 1, 2, 2)) = Some (Num (1 / 4))"
    using conjunct1[OF B] by (simp only: iou64_small)
  from B exact_small(1)
  have "fle (Num 0) (calculateIoU64 (box64 (0, 0, 4, 4)) (box64 (1, 1, 2, 2)))
      \<and> fle (calculateIoU64 (box64 (0, 0, 4, 4)) (box64 (1, 1, 2, 2))) (Num 1)"
    by blast
  then have "fle (Num 0) (Num (1 / 4)) \<and> fle (Num (1 / 4)) (Num 1)"
    by (simp only: iou64_small)
  moreover have "isFinite (intersectionArea64 (box64 cancel_box) (box64 cancel_box))"
    using cancel_parts by simp
  then have "isFinite (calculateIoU64 (box64 cancel_box) (box64 cancel_box))"
    using A by blast
  moreover have "isFinite (calculateIoU64 (box64 (0, 0, 4, 4)) (box64 (1, 1, 2, 2)))"
    using B moderate_small by blast
  ultimately show ?thesis using a b cancel_parts exact_small(1) moderate_small by blast
qed

section \<open>The end-to-end scenario\<close>

lemmas update_defs = update_def update_loop_def update_matches_def predict_def
  candidate_matches_def sort_matches_def apply_match_def unmatched_tracks_def newTrack_def
  Let_def

lemma scenario_frame1:
  "update \<lparr>nextId = 1, tracks = [], maxMissingFrames = 2, iouThreshold = 1 / 4\<rparr>
      [\<lparr>bbox = (10, 10, 20, 20), class' = c1, score = s1\<rparr>] r1 =
    ([\<lparr>bbox = (10, 10, 20, 20), class' = c1, score = s1, id' = 1, missingFrames = 0,
       color = getRandomColor (r1 0), velocity = (0, 0)\<rparr>],
     \<lparr>nextId = 2,
      tracks = [\<lparr>bbox = (10, 10, 20, 20), class' = c1, score = s1, id' = 1, missingFrames = 0,
                 color = getRandomColor (r1 0), velocity = (0, 0)\<rparr>],
      maxMissingFrames = 2, iouThreshold = 1 / 4\<rparr>)"
  by (simp add: update_defs)

lemma scenario_frame2:
  "update \<lparr>nextId = 2,
           tracks = [\<lparr>bbox = (10, 10, 20, 20), class' = c1, score = s1, id' = 1,
                      missingFrames = 0, color = col, velocity = (0, 0)\<rparr>],
           maxMissingFrames = 2, iouThreshold = 1 / 4\<rparr>
      [\<lparr>bbox = (15, 10, 20, 20), class' = c2, score = s2\<rparr>] r2 =
    ([\<lparr>bbox = (15, 10, 20, 20), class' = c2, score = s2, id' = 1, missingFrames = 0,
       color = col, velocity = (5 / 2, 0)\<rparr>],
     \<lparr>nextId = 2,
      tracks = [\<lparr>bbox = (15, 10, 20, 20), class' = c2, score = s2, id' = 1, missingFrames = 0,
                 color = col, velocity = (5 / 2, 0)\<rparr>],
      maxMissingFrames = 2, iouThreshold = 1 / 4\<rparr>)"
  by (simp add: update_defs)

lemma scenario_frame3:
  "update \<lparr>nextId = 2,
           tracks = [\<lparr>bbox = (15, 10, 20, 20), class' = c2, score = s2, id' = 1,
                      missingFrames = 0, color = col, velocity = (5 / 2, 0)\<rparr>],
           maxMissingFrames = 2, iouThreshold = 1 / 4\<rparr> [] r3 =
    ([\<lparr>bbox = (35 / 2, 10, 20, 20), class' = c2, score = s2, id' = 1, missingFrames = 1,
       color = col, velocity = (5 / 2, 0)\<rparr>],
     \<lparr>nextId = 2,
      tracks = [\<lparr>bbox = (35 / 2, 10, 20, 20), class' = c2, score = s2, id' = 1,
                 missingFrames = 1, color = col, velocity = (5 / 2, 0)\<rparr>],
      maxMissingFrames = 2, iouThreshold = 1 / 4\<rparr>)"
  by (simp add: update_defs)

lemma scenario_frame4:
  "update \<lparr>nextId = 2,
           tracks = [\<lparr>bbox = (35 / 2, 10, 20, 20), class' = c2, score = s2, id' = 1,
                      missingFrames = 1, color = col, velocity = (5 / 2, 0)\<rparr>],
           maxMissingFrames = 2, iouThreshold = 1 / 4\<rparr> [] r4 =
    ([], \<lparr>nextId = 2, tracks = [], maxMissingFrames = 2, iouThreshold = 1 / 4\<rparr>)"
  by (simp add: update_defs)

text \<open>
  Claim C1. A tracker constructed with \<open>maxMissingFrames = 2\<close> and threshold \<open>0.25\<close> is given
  the detection \<open>(10, 10, 20, 20)\<close>, then \<open>(15, 10, 20, 20)\<close>, then two empty frames. The
  four calls return: one track with id 1 and velocity \<open>(0, 0)\<close>; the same track with id 1,
  box \<open>(15, 10, 20, 20)\<close> and velocity \<open>(2.5, 0)\<close>; the same track with \<open>missingFrames = 1\<close>
  and the predicted box \<open>(17.5, 10, 20, 20)\<close>; the empty list. The labels, the scores and
  the random draws are arbitrary.
\<close>

theorem end_to_end_scenario:
  "(let t0 = constructor 2 (1 / 4) in
    case update t0 [\<lparr>bbox = (10, 10, 20, 20), class' = c1, score = s1\<rparr>] r1 of (out1, t1) \<Rightarrow>
    case update t1 [\<lparr>bbox = (15, 10, 20, 20), class' = c2, score = s2\<rparr>] r2 of (out2, t2) \<Rightarrow>
    case update t2 [] r3 of (out3, t3) \<Rightarrow>
    case update t3 [] r4 of (out4, t4) \<Rightarrow>
      out1 = [\<lparr>bbox = (10, 10, 20, 20), class' = c1, score = s1, id' = 1, missingFrames = 0,
               color = getRandomColor (r1 0), velocity = (0, 0)\<rparr>]
    \<and> out2 = [\<lparr>bbox = (15, 10, 20, 20), class' = c2, score = s2, id' = 1, missingFrames = 0,
               color = getRandomColor (r1 0), velocity = (5 / 2, 0)\<rparr>]
    \<and> out3 = [\<lparr>bbox = (35 / 2, 10, 20, 20), class' = c2, score = s2, id' = 1,
               missingFrames = 1, color = getRandomColor (r1 0), velocity = (5 / 2, 0)\<rparr>]
    \<and> out4 = [])"
  by (simp add: constructor_def scenario_frame1 scenario_frame2 scenario_frame3 scenario_frame4)

theorem end_to_end_scenario_witness:
  "(let t0 = constructor 2 (1 / 4) in
    case update t0 [\<lparr>bbox = (10, 10, 20, 20), class' = ''person'', score = 9 / 10\<rparr>] (\<lambda>n. 0)
      of (out1, t1) \<Rightarrow>
    case update t1 [\<lparr>bbox = (15, 10, 20, 20), class' = ''person'', score = 8 / 10\<rparr>] (\<lambda>n. 0)
      of (out2, t2) \<Rightarrow>
    case update t2 [] (\<lambda>n. 0) of (out3, t3) \<Rightarrow>
    case update t3 [] (\<lambda>n. 0) of (out4, t4) \<Rightarrow>
      map id' out1 = [1] \<and> map velocity out1 = [(0, 0)]
    \<and> map id' out2 = [1] \<and> map bbox out2 = [(15, 10, 20, 20)]
    \<and> map velocity out2 = [(5 / 2, 0)]
    \<and> map id' out3 = [1] \<and> map missingFrames out3 = [1]
    \<and> map bbox out3 = [(35 / 2, 10, 20, 20)]
    \<and> out4 = [])"
  using end_to_end_scenario[of "''person''" "9 / 10" "\<lambda>n. 0" "''person''" "8 / 10" "\<lambda>n. 0"
      "\<lambda>n. 0" "\<lambda>n. 0"]
  by (simp add: Let_def split: prod.splits)

section \<open>The matching loop\<close>

text \<open>The accepted pairs: each index at most once, in the order of the walk.\<close>

lemma accepted_matches_fresh:
  "m \<in> set (accepted_matches ms aT aD) \<Longrightarrow> m \<in> set ms \<and> trackIdx m \<notin> aT \<and> detIdx m \<notin> aD"
  by (induction ms arbitrary: aT aD) (auto split: if_splits)

lemma accepted_matches_trackIdx:
  "m \<in> set (accepted_matches ms aT aD) \<Longrightarrow> trackIdx m \<notin> aT"
  using accepted_matches_fresh by blast

lemma accepted_matches_detIdx:
  "m \<in> set (accepted_matches ms aT aD) \<Longrightarrow> detIdx m \<notin> aD"
  using accepted_matches_fresh by blast

lemma accepted_matches_distinct:
  "distinct (map trackIdx (accepted_matches ms aT aD)) \<and>
   distinct (map detIdx (accepted_matches ms aT aD))"
proof (induction ms arbitrary: aT aD)
  case Nil
  show ?case by simp
next
  case (Cons m ms)
  have "trackIdx m \<notin> trackIdx ` set (accepted_matches ms (insert (trackIdx m) aT) (insert (detIdx m) aD))"
    using accepted_matches_trackIdx[of _ ms "insert (trackIdx m) aT" "insert (detIdx m) aD"]
    by (metis imageE insertI1)
  moreover have "detIdx m \<notin> detIdx ` set (accepted_matches ms (insert (trackIdx m) aT) (insert (detIdx m) aD))"
    using accepted_matches_detIdx[of _ ms "insert (trackIdx m) aT" "insert (detIdx m) aD"]
    by (metis imageE insertI1)
  ultimately show ?case
    using Cons.IH[of aT aD] Cons.IH[of "insert (trackIdx m) aT" "insert (detIdx m) aD"]
    by simp
qed

lemma accepted_matches_subseq: "subseq (accepted_matches ms aT aD) ms"
  by (induction ms arbitrary: aT aD) auto

lemma accepted_matches_append:
  "accepted_matches (xs @ ys) aT aD =
     accepted_matches xs aT aD @
     accepted_matches ys (aT \<union> trackIdx ` set (accepted_matches xs aT aD))
                         (aD \<union> detIdx ` set (accepted_matches xs aT aD))"
  by (induction xs arbitrary: aT aD) auto

lemma accepted_matches_snoc:
  "accepted_matches (xs @ [m]) {} {} =
     accepted_matches xs {} {} @
     (if \<exists>a \<in> set (accepted_matches xs {} {}). trackIdx a = trackIdx m \<or> detIdx a = detIdx m
      then [] else [m])"
proof -
  let ?A = "accepted_matches xs {} {}"
  have "(trackIdx m \<in> trackIdx ` set ?A \<or> detIdx m \<in> detIdx ` set ?A) =
        (\<exists>a \<in> set ?A. trackIdx a = trackIdx m \<or> detIdx a = detIdx m)"
    unfolding image_iff by (auto simp: eq_commute[of "trackIdx m"] eq_commute[of "detIdx m"])
  then show ?thesis by (simp add: accepted_matches_append)
qed

text \<open>
  The loop computes the accepted pairs: its output list holds the updated tracks of these
  pairs, its index sets hold their indices, and every other track is left as it was.
\<close>

lemma match_loop_eq:
  "activeTracks (match_loop ms ds s) =
     activeTracks s @ map (\<lambda>m. apply_match (loopTracks s ! trackIdx m) (ds ! detIdx m))
       (accepted_matches ms (assignedTrackIndices s) (assignedDetIndices s))
   \<and> assignedTrackIndices (match_loop ms ds s) =
       assignedTrackIndices s \<union>
       trackIdx ` set (accepted_matches ms (assignedTrackIndices s) (assignedDetIndices s))
   \<and> assignedDetIndices (match_loop ms ds s) =
       assignedDetIndices s \<union>
       detIdx ` set (accepted_matches ms (assignedTrackIndices s) (assignedDetIndices s))
   \<and> length (loopTracks (match_loop ms ds s)) = length (loopTracks s)
   \<and> (\<forall>i. i \<notin> trackIdx ` set (accepted_matches ms (assignedTrackIndices s) (assignedDetIndices s))
        \<longrightarrow> loopTracks (match_loop ms ds s) ! i = loopTracks s ! i)"
proof (induction ms arbitrary: s)
  case Nil
  show ?case by simp
next
  case (Cons m ms)
  show ?case
  proof (cases "trackIdx m \<in> assignedTrackIndices s \<or> detIdx m \<in> assignedDetIndices s")
    case True
    then show ?thesis using Cons.IH[of s] by simp
  next
    case False
    define track where "track = apply_match (loopTracks s ! trackIdx m) (ds ! detIdx m)"
    define s' where "s' = \<lparr>loopTracks = (loopTracks s)[trackIdx m := track],
              activeTracks = activeTracks s @ [track],
              assignedTrackIndices = insert (trackIdx m) (assignedTrackIndices s),
              assignedDetIndices = insert (detIdx m) (assignedDetIndices s)\<rparr>"
    define acc' where "acc' = accepted_matches ms (assignedTrackIndices s') (assignedDetIndices s')"
    have step: "match_loop (m # ms) ds s = match_loop ms ds s'"
      using False by (simp add: s'_def track_def Let_def)
    have acc: "accepted_matches (m # ms) (assignedTrackIndices s) (assignedDetIndices s) = m # acc'"
      using False by (simp add: acc'_def s'_def)
    have fresh: "\<And>a. a \<in> set acc' \<Longrightarrow> trackIdx a \<noteq> trackIdx m"
      using accepted_matches_fresh[of _ ms "assignedTrackIndices s'" "assignedDetIndices s'"]
      by (auto simp: acc'_def s'_def)
    have same: "map (\<lambda>a. apply_match (loopTracks s' ! trackIdx a) (ds ! detIdx a)) acc' =
                map (\<lambda>a. apply_match (loopTracks s ! trackIdx a) (ds ! detIdx a)) acc'"
    proof (intro map_cong refl)
      fix a assume "a \<in> set acc'"
      then have "trackIdx a \<noteq> trackIdx m" by (rule fresh)
      then show "apply_match (loopTracks s' ! trackIdx a) (ds ! detIdx a) =
                 apply_match (loopTracks s ! trackIdx a) (ds ! detIdx a)"
        by (simp add: s'_def)
    qed
    have sel: "activeTracks s' = activeTracks s @ [track]"
      "assignedTrackIndices s' = insert (trackIdx m) (assignedTrackIndices s)"
      "assignedDetIndices s' = insert (detIdx m) (assignedDetIndices s)"
      "length (loopTracks s') = length (loopTracks s)"
      "\<And>i. i \<noteq> trackIdx m \<Longrightarrow> loopTracks s' ! i = loopTracks s ! i"
      by (simp_all add: s'_def)
    note IH = Cons.IH[of s', folded acc'_def]
    have 1: "activeTracks (match_loop (m # ms) ds s) =
       activeTracks s @ map (\<lambda>m. apply_match (loopTracks s ! trackIdx m) (ds ! detIdx m)) (m # acc')"
      unfolding step using IH by (simp add: same sel(1) track_def)
    have 2: "assignedTrackIndices (match_loop (m # ms) ds s) =
       assignedTrackIndices s \<union> trackIdx ` set (m # acc')"
      unfolding step using IH by (simp add: sel(2))
    have 3: "assignedDetIndices (match_loop (m # ms) ds s) =
       assignedDetIndices s \<union> detIdx ` set (m # acc')"
      unfolding step using IH by (simp add: sel(3))
    have 4: "length (loopTracks (match_loop (m # ms) ds s)) = length (loopTracks s)"
      unfolding step using IH by (simp add: sel(4))
    have 5: "\<forall>i. i \<notin> trackIdx ` set (m # acc') \<longrightarrow>
        loopTracks (match_loop (m # ms) ds s) ! i = loopTracks s ! i"
      unfolding step using IH by (simp add: sel(5))
    show ?thesis unfolding acc using 1 2 3 4 5 by blast
  qed
qed

lemma unmatched_tracks_cong:
  assumes "length ts = length ts'" and "\<And>i. i < length ts \<Longrightarrow> i \<notin> A \<Longrightarrow> ts ! i = ts' ! i"
  shows "unmatched_tracks ts A mx = unmatched_tracks ts' A mx"
  unfolding unmatched_tracks_def using assms
  by (auto intro!: arg_cong[where f = concat] map_cong)

lemma update_fst:
  "fst (update trk ds rnd) =
     map (\<lambda>m. apply_match (map predict (tracks trk) ! trackIdx m) (ds ! detIdx m)) (accepted trk ds)
     @ unmatched_tracks (map predict (tracks trk)) (trackIdx ` set (accepted trk ds))
         (maxMissingFrames trk)
     @ spawned_tracks trk ds rnd"
proof -
  let ?s0 = "\<lparr>loopTracks = map predict (tracks trk), activeTracks = [],
        assignedTrackIndices = {}, assignedDetIndices = {}\<rparr>"
  note L = match_loop_eq[of "update_matches trk ds" ds ?s0, simplified,
      folded update_loop_def accepted_def]
  have "unmatched_tracks (loopTracks (update_loop trk ds)) (trackIdx ` set (accepted trk ds))
         (maxMissingFrames trk) =
        unmatched_tracks (map predict (tracks trk)) (trackIdx ` set (accepted trk ds))
         (maxMissingFrames trk)"
    using L by (intro unmatched_tracks_cong) auto
  then show ?thesis
    using L by (simp add: update_def spawned_tracks_def Let_def split: prod.splits)
qed

lemma update_snd:
  "snd (update trk ds rnd) =
     trk\<lparr>tracks := fst (update trk ds rnd),
         nextId := snd (spawn ds 0 (assignedDetIndices (update_loop trk ds)) (nextId trk) rnd 0)\<rparr>"
  by (simp add: update_def Let_def split: prod.splits)

lemma update_loop_assigned:
  "assignedTrackIndices (update_loop trk ds) = trackIdx ` set (accepted trk ds)"
  "assignedDetIndices (update_loop trk ds) = detIdx ` set (accepted trk ds)"
  "activeTracks (update_loop trk ds) = map (\<lambda>m. apply_match (map predict (tracks trk) ! trackIdx m) (ds ! detIdx m)) (accepted trk ds)"
  using match_loop_eq[of "update_matches trk ds" ds "\<lparr>loopTracks = map predict (tracks trk), activeTracks = [],
        assignedTrackIndices = {}, assignedDetIndices = {}\<rparr>", simplified,
      folded update_loop_def accepted_def]
  by auto

section \<open>One-to-one greedy matching\<close>

lemma candidate_matches_iff:
  "m \<in> set (candidate_matches ts ds thr) \<longleftrightarrow>
     (\<exists>t<length ts. \<exists>d<length ds.
        thr \<le> calculateIoU (bbox (ts ! t)) (bbox (ds ! d)) \<and>
        m = \<lparr>trackIdx = t, detIdx = d, iou = calculateIoU (bbox (ts ! t)) (bbox (ds ! d))\<rparr>)"
  unfolding candidate_matches_def by (auto simp: Let_def split: if_splits)

lemma update_matches_iff:
  "m \<in> set (update_matches trk ds) \<longleftrightarrow>
     (\<exists>t<length (tracks trk). \<exists>d<length ds.
        iouThreshold trk \<le> calculateIoU (bbox (predict (tracks trk ! t))) (bbox (ds ! d)) \<and>
        m = \<lparr>trackIdx = t, detIdx = d,
             iou = calculateIoU (bbox (predict (tracks trk ! t))) (bbox (ds ! d))\<rparr>)"
  unfolding update_matches_def sort_matches_def by (simp add: candidate_matches_iff cong: conj_cong)

lemma update_matches_sorted: "sorted_wrt (\<lambda>a b. iou b \<le> iou a) (update_matches trk ds)"
proof -
  have "sorted (map (\<lambda>m. - iou m) (update_matches trk ds))"
    unfolding update_matches_def sort_matches_def by (rule sorted_sort_key)
  then show ?thesis by (simp add: sorted_wrt_map)
qed

lemma accepted_in_matches: "m \<in> set (accepted trk ds) \<Longrightarrow> m \<in> set (update_matches trk ds)"
  unfolding accepted_def using accepted_matches_fresh by blast

lemma accepted_props:
  assumes "m \<in> set (accepted trk ds)"
  shows "trackIdx m < length (tracks trk)" "detIdx m < length ds"
    "iou m = calculateIoU (bbox (predict (tracks trk ! trackIdx m))) (bbox (ds ! detIdx m))"
    "iouThreshold trk \<le> iou m"
  using accepted_in_matches[OF assms] unfolding update_matches_iff by auto

lemma accepted_length:
  "length (accepted trk ds) \<le> min (length (tracks trk)) (length ds)"
proof -
  let ?acc = "accepted trk ds"
  have dt: "distinct (map trackIdx ?acc)" and dd: "distinct (map detIdx ?acc)"
    using accepted_matches_distinct unfolding accepted_def by blast+
  have "set (map trackIdx ?acc) \<subseteq> {..<length (tracks trk)}"
    using accepted_props(1) by auto
  then have "card (set (map trackIdx ?acc)) \<le> length (tracks trk)"
    using card_mono[of "{..<length (tracks trk)}"] by fastforce
  then have 1: "length ?acc \<le> length (tracks trk)"
    using distinct_card[OF dt] by simp
  have "set (map detIdx ?acc) \<subseteq> {..<length ds}"
    using accepted_props(2) by auto
  then have "card (set (map detIdx ?acc)) \<le> length ds"
    using card_mono[of "{..<length ds}"] by fastforce
  then have 2: "length ?acc \<le> length ds"
    using distinct_card[OF dd] by simp
  from 1 2 show ?thesis by simp
qed

lemma accepted_walk:
  assumes "i < length ms"
  shows "accepted_matches (take (Suc i) ms) {} {} =
     accepted_matches (take i ms) {} {} @
     (if \<exists>a \<in> set (accepted_matches (take i ms) {} {}).
           trackIdx a = trackIdx (ms ! i) \<or> detIdx a = detIdx (ms ! i)
      then [] else [ms ! i])"
  using assms accepted_matches_snoc[of "take i ms" "ms ! i"]
  by (simp add: take_Suc_conv_app_nth)

text \<open>
  Claim C6. In a call with \<open>N\<close> live tracks and \<open>M\<close> detections the loop accepts at most
  \<open>min N M\<close> pairs, no track index and no detection index occurs in two accepted pairs, and
  every accepted pair is a pair of a live track and a detection whose IoU (of the predicted
  box and the detection's box) reaches the threshold. The pairs are walked in descending
  order of IoU, and the walk is greedy: the pair at position \<open>i\<close> is accepted exactly when no
  pair accepted among the first \<open>i\<close> (all of IoU at least as high) has the same track or the
  same detection; the accepted pairs are a subsequence of the walk. The index sets and the
  output list of the loop are those of the accepted pairs.
\<close>

theorem greedy_one_to_one:
  "(let ms = update_matches trk ds; acc = accepted trk ds; s = update_loop trk ds in
      length acc \<le> min (length (tracks trk)) (length ds)
    \<and> distinct (map trackIdx acc) \<and> distinct (map detIdx acc)
    \<and> (\<forall>m \<in> set acc.
          trackIdx m < length (tracks trk) \<and> detIdx m < length ds
        \<and> iou m = calculateIoU (bbox (predict (tracks trk ! trackIdx m))) (bbox (ds ! detIdx m))
        \<and> iouThreshold trk \<le> iou m)
    \<and> sorted_wrt (\<lambda>a b. iou b \<le> iou a) ms
    \<and> subseq acc ms
    \<and> accepted_matches (take 0 ms) {} {} = []
    \<and> (\<forall>i<length ms.
          accepted_matches (take (Suc i) ms) {} {} =
          accepted_matches (take i ms) {} {} @
          (if \<exists>a \<in> set (accepted_matches (take i ms) {} {}).
                trackIdx a = trackIdx (ms ! i) \<or> detIdx a = detIdx (ms ! i)
           then [] else [ms ! i]))
    \<and> accepted_matches (take (length ms) ms) {} {} = acc
    \<and> assignedTrackIndices s = trackIdx ` set acc
    \<and> assignedDetIndices s = detIdx ` set acc
    \<and> activeTracks s =
        map (\<lambda>m. apply_match (predict (tracks trk ! trackIdx m)) (ds ! detIdx m)) acc)"
proof -
  have d: "distinct (map trackIdx (accepted trk ds))" "distinct (map detIdx (accepted trk ds))"
    using accepted_matches_distinct unfolding accepted_def by blast+
  have a: "activeTracks (update_loop trk ds) =
        map (\<lambda>m. apply_match (predict (tracks trk ! trackIdx m)) (ds ! detIdx m)) (accepted trk ds)"
    unfolding update_loop_assigned(3) using accepted_props(1)
    by (intro map_cong refl) simp
  show ?thesis
    unfolding Let_def
    using accepted_length[of trk ds] d accepted_props[of _ trk ds] update_matches_sorted[of trk ds]
      accepted_walk[of _ "update_matches trk ds"] update_loop_assigned(1,2)[of trk ds] a
      accepted_matches_subseq[of "update_matches trk ds" "{}" "{}"]
    by (simp add: accepted_def)
qed

text \<open>
  Claim C2. The \<open>i\<close>-th accepted pair of a call yields the \<open>i\<close>-th returned track. It is the
  matched track (same id, same colour); its velocity is \<open>oldVelocity * (1 - 0.5) +
  measuredV * 0.5\<close>, where \<open>measuredV\<close> is the detection's top-left corner minus the
  predicted position less the old velocity; its box is the detection's box, its label and
  score are the detection's, and its \<open>missingFrames\<close> is 0.
\<close>

theorem matched_track_update:
  assumes "i < length (accepted trk ds)"
  shows "(let m = accepted trk ds ! i;
              old = tracks trk ! trackIdx m;
              det = ds ! detIdx m;
              new = fst (update trk ds rnd) ! i;
              measuredVx = fst (bbox det) - (fst (bbox (predict old)) - fst (velocity old));
              measuredVy = fst (snd (bbox det)) - (fst (snd (bbox (predict old))) - snd (velocity old))
          in trackIdx m < length (tracks trk) \<and> detIdx m < length ds
           \<and> id' new = id' old \<and> color new = color old
           \<and> velocity new = (fst (velocity old) * (1 - 1 / 2) + measuredVx * (1 / 2),
                              snd (velocity old) * (1 - 1 / 2) + measuredVy * (1 / 2))
           \<and> bbox new = bbox det
           \<and> class' new = class' det
           \<and> score new = score det
           \<and> missingFrames new = 0)"
proof -
  let ?m = "accepted trk ds ! i"
  have m: "?m \<in> set (accepted trk ds)" using assms by simp
  have t: "trackIdx ?m < length (tracks trk)" and d: "detIdx ?m < length ds"
    using accepted_props[OF m] by auto
  have new: "fst (update trk ds rnd) ! i =
      apply_match (predict (tracks trk ! trackIdx ?m)) (ds ! detIdx ?m)"
    using assms t by (simp add: update_fst nth_append)
  show ?thesis
    unfolding Let_def new using t d
    by (simp add: apply_match_def predict_def Let_def split: prod.splits)
qed

text \<open>The example: the sorted candidates and the accepted pairs.\<close>

lemma example_matches:
  "update_matches example_tracker example_detections =
     [\<lparr>trackIdx = 0, detIdx = 0, iou = 9 / 11\<rparr>,
      \<lparr>trackIdx = 0, detIdx = 3, iou = 2 / 3\<rparr>,
      \<lparr>trackIdx = 1, detIdx = 1, iou = 2 / 3\<rparr>]"
  by (simp add: update_matches_def sort_matches_def candidate_matches_def predict_def
      example_tracker_def example_detections_def Let_def upt_rec)

lemma example_accepted:
  "accepted example_tracker example_detections =
     [\<lparr>trackIdx = 0, detIdx = 0, iou = 9 / 11\<rparr>, \<lparr>trackIdx = 1, detIdx = 1, iou = 2 / 3\<rparr>]"
  by (simp add: accepted_def example_matches)

theorem greedy_one_to_one_witness:
  "accepted example_tracker example_detections =
     [\<lparr>trackIdx = 0, detIdx = 0, iou = 9 / 11\<rparr>, \<lparr>trackIdx = 1, detIdx = 1, iou = 2 / 3\<rparr>]
   \<and> length (accepted example_tracker example_detections)
       \<le> min (length (tracks example_tracker)) (length example_detections)
   \<and> distinct (map trackIdx (accepted example_tracker example_detections))
   \<and> distinct (map detIdx (accepted example_tracker example_detections))
   \<and> sorted_wrt (\<lambda>a b. iou b \<le> iou a) (update_matches example_tracker example_detections)
   \<and> assignedTrackIndices (update_loop example_tracker example_detections) = {0, 1}
   \<and> assignedDetIndices (update_loop example_tracker example_detections) = {0, 1}
   \<and> map id' (activeTracks (update_loop example_tracker example_detections)) = [1, 2]"
  using greedy_one_to_one[of example_tracker example_detections]
  by (simp add: Let_def example_accepted) (simp add: example_tracker_def predict_def apply_match_def)

theorem matched_track_update_witness:
  "0 < length (accepted example_tracker example_detections)
   \<and> id' (fst (update example_tracker example_detections (\<lambda>n. 0)) ! 0) = 1
   \<and> velocity (fst (update example_tracker example_detections (\<lambda>n. 0)) ! 0) = (5 / 2, 0)
   \<and> bbox (fst (update example_tracker example_detections (\<lambda>n. 0)) ! 0) = (3, 0, 10, 10)
   \<and> class' (fst (update example_tracker example_detections (\<lambda>n. 0)) ! 0) = ''person''
   \<and> score (fst (update example_tracker example_detections (\<lambda>n. 0)) ! 0) = 7 / 10
   \<and> missingFrames (fst (update example_tracker example_detections (\<lambda>n. 0)) ! 0) = 0"
  using matched_track_update[of 0 example_tracker example_detections "\<lambda>n. 0"]
  by (simp add: Let_def example_accepted)
    (simp add: example_tracker_def example_detections_def predict_def)

section \<open>Identities\<close>

text \<open>The ids of the tracks one call creates ascend from \<^verbatim>\<open>nextId\<close>.\<close>

lemma spawn_ids:
  "sorted_wrt (<) (map id' (fst (spawn ds i A n rnd k)))
   \<and> list_all (\<lambda>t. n \<le> id' t \<and> id' t < snd (spawn ds i A n rnd k)) (fst (spawn ds i A n rnd k))
   \<and> n \<le> snd (spawn ds i A n rnd k)"
proof (induction ds arbitrary: i n k)
  case Nil
  show ?case by simp
next
  case (Cons d ds)
  show ?case
  proof (cases "i \<in> A")
    case True
    then show ?thesis using Cons.IH[of "Suc i" n k] by simp
  next
    case False
    obtain rest n' where sp: "spawn ds (Suc i) A (n + 1) rnd (Suc k) = (rest, n')"
      by (cases "spawn ds (Suc i) A (n + 1) rnd (Suc k)")
    have IH: "sorted_wrt (<) (map id' rest)" "list_all (\<lambda>t. n + 1 \<le> id' t \<and> id' t < n') rest"
      "n + 1 \<le> n'"
      using Cons.IH[of "Suc i" "n + 1" "Suc k"] by (simp_all add: sp)
    have eq: "spawn (d # ds) i A n rnd k = (newTrack d n (rnd k) # rest, n')"
      using False by (simp add: sp)
    have "\<forall>t \<in> set rest. n < id' t \<and> n \<le> id' t \<and> id' t < n'"
      using IH(2) by (auto simp: list_all_iff)
    then show ?thesis
      unfolding eq using IH by (simp add: newTrack_def list_all_iff)
  qed
qed

lemma concat_map_if:
  "concat (map (\<lambda>x. if P x then [f x] else []) xs) = map f (filter P xs)"
  by (induction xs) auto

lemma unmatched_tracks_filter:
  "unmatched_tracks ts A mx =
     map (\<lambda>i. (ts ! i)\<lparr>missingFrames := missingFrames (ts ! i) + 1\<rparr>)
       (filter (\<lambda>i. i \<notin> A \<and> missingFrames (ts ! i) + 1 < mx) [0..<length ts])"
proof -
  have "unmatched_tracks ts A mx =
      concat (map (\<lambda>i. if i \<notin> A \<and> missingFrames (ts ! i) + 1 < mx
                        then [(ts ! i)\<lparr>missingFrames := missingFrames (ts ! i) + 1\<rparr>] else [])
        [0..<length ts])"
    unfolding unmatched_tracks_def by (intro arg_cong[where f = concat] map_cong) (auto simp: Let_def)
  then show ?thesis by (simp only: concat_map_if)
qed

lemma predict_fields [simp]:
  "id' (predict t) = id' t" "missingFrames (predict t) = missingFrames t"
  "velocity (predict t) = velocity t" "color (predict t) = color t"
  "class' (predict t) = class' t" "score (predict t) = score t"
  by (simp_all add: predict_def split: prod.splits)

lemma apply_match_fields [simp]:
  "id' (apply_match t d) = id' t" "missingFrames (apply_match t d) = 0"
  "color (apply_match t d) = color t" "bbox (apply_match t d) = bbox d"
  "class' (apply_match t d) = class' d" "score (apply_match t d) = score d"
  by (simp_all add: apply_match_def Let_def)

text \<open>The returned list, index by index.\<close>

lemma update_fst_kept:
  "fst (update trk ds rnd) =
     map (\<lambda>m. apply_match (predict (tracks trk ! trackIdx m)) (ds ! detIdx m)) (accepted trk ds)
     @ map (\<lambda>i. (predict (tracks trk ! i))\<lparr>missingFrames := missingFrames (tracks trk ! i) + 1\<rparr>)
         (filter (\<lambda>i. i \<notin> trackIdx ` set (accepted trk ds)
                     \<and> missingFrames (tracks trk ! i) + 1 < maxMissingFrames trk)
            [0..<length (tracks trk)])
     @ spawned_tracks trk ds rnd"
proof -
  have 1: "map (\<lambda>m. apply_match (map predict (tracks trk) ! trackIdx m) (ds ! detIdx m)) (accepted trk ds)
      = map (\<lambda>m. apply_match (predict (tracks trk ! trackIdx m)) (ds ! detIdx m)) (accepted trk ds)"
    using accepted_props(1) by (intro map_cong refl) simp
  have 2: "unmatched_tracks (map predict (tracks trk)) (trackIdx ` set (accepted trk ds))
         (maxMissingFrames trk) =
       map (\<lambda>i. (predict (tracks trk ! i))\<lparr>missingFrames := missingFrames (tracks trk ! i) + 1\<rparr>)
         (filter (\<lambda>i. i \<notin> trackIdx ` set (accepted trk ds)
                     \<and> missingFrames (tracks trk ! i) + 1 < maxMissingFrames trk)
            [0..<length (tracks trk)])"
  proof -
    let ?T = "trackIdx ` set (accepted trk ds)"
    have f: "filter (\<lambda>i. i \<notin> ?T \<and>
                 missingFrames (map predict (tracks trk) ! i) + 1 < maxMissingFrames trk)
               [0..<length (tracks trk)] =
             filter (\<lambda>i. i \<notin> ?T \<and> missingFrames (tracks trk ! i) + 1 < maxMissingFrames trk)
               [0..<length (tracks trk)]"
      by (intro filter_cong refl) simp
    show ?thesis
      unfolding unmatched_tracks_filter length_map f
      by (intro map_cong refl) simp
  qed
  show ?thesis unfolding update_fst 1 2 ..
qed

lemma update_ids:
  "map id' (fst (update trk ds rnd)) =
     map (\<lambda>i. id' (tracks trk ! i)) (kept_indices trk ds) @ map id' (spawned_tracks trk ds rnd)"
  unfolding update_fst_kept kept_indices_def by (simp add: comp_def)

lemma kept_indices_distinct:
  "distinct (kept_indices trk ds) \<and> set (kept_indices trk ds) \<subseteq> {..<length (tracks trk)}"
proof -
  have "distinct (map trackIdx (accepted trk ds))"
    using accepted_matches_distinct unfolding accepted_def by blast
  moreover have "set (map trackIdx (accepted trk ds)) \<subseteq> {..<length (tracks trk)}"
    using accepted_props(1) by auto
  ultimately show ?thesis unfolding kept_indices_def by auto
qed

lemma distinct_nth_map:
  assumes "distinct xs" "distinct I" "set I \<subseteq> {..<length xs}"
  shows "distinct (map (\<lambda>i. xs ! i) I)"
proof -
  have "inj_on (\<lambda>i. xs ! i) (set I)"
  proof (rule inj_onI)
    fix x y assume "x \<in> set I" "y \<in> set I" "xs ! x = xs ! y"
    moreover have "x < length xs" "y < length xs" using calculation assms(3) by auto
    ultimately show "x = y" using assms(1) by (simp add: nth_eq_iff_index_eq)
  qed
  then show ?thesis using assms(2) by (simp add: distinct_map)
qed

lemma nextId_update:
  "nextId (snd (update trk ds rnd)) = snd (spawn ds 0 (assignedDetIndices (update_loop trk ds)) (nextId trk) rnd 0)"
  "tracks (snd (update trk ds rnd)) = fst (update trk ds rnd)"
  "maxMissingFrames (snd (update trk ds rnd)) = maxMissingFrames trk"
  "iouThreshold (snd (update trk ds rnd)) = iouThreshold trk"
  by (simp_all add: update_snd)

lemma spawned_ids_range:
  "sorted_wrt (<) (map id' (spawned_tracks trk ds rnd))"
  "t \<in> set (spawned_tracks trk ds rnd) \<Longrightarrow>
     nextId trk \<le> id' t \<and> id' t < nextId (snd (update trk ds rnd))"
  "nextId trk \<le> nextId (snd (update trk ds rnd))"
  using spawn_ids[of ds 0 "assignedDetIndices (update_loop trk ds)" "nextId trk" rnd 0]
  by (auto simp: spawned_tracks_def nextId_update list_all_iff)

lemma wf_update:
  assumes "wf_tracker trk"
  shows "wf_tracker (snd (update trk ds rnd))"
proof -
  let ?ts = "tracks trk"
  let ?K = "kept_indices trk ds"
  let ?S = "spawned_tracks trk ds rnd"
  have d: "distinct (map id' ?ts)" and pos: "0 < nextId trk"
    and rng: "\<And>t. t \<in> set ?ts \<Longrightarrow> 0 < id' t \<and> id' t < nextId trk"
    using assms by (auto simp: wf_tracker_def list_all_iff)
  have K: "distinct ?K" "set ?K \<subseteq> {..<length ?ts}" using kept_indices_distinct by blast+
  have keq: "map (\<lambda>i. id' (?ts ! i)) ?K = map (\<lambda>i. map id' ?ts ! i) ?K"
    using K(2) by (intro map_cong refl) auto
  have dk: "distinct (map (\<lambda>i. id' (?ts ! i)) ?K)"
    unfolding keq using d K by (intro distinct_nth_map) auto
  have kr: "\<And>x. x \<in> set (map (\<lambda>i. id' (?ts ! i)) ?K) \<Longrightarrow> 0 < x \<and> x < nextId trk"
    using K(2) rng by auto
  have sr: "\<And>x. x \<in> set (map id' ?S) \<Longrightarrow> nextId trk \<le> x \<and> x < nextId (snd (update trk ds rnd))"
    using spawned_ids_range(2)[of _ trk ds rnd] by auto
  have ds': "distinct (map id' ?S)"
    using spawned_ids_range(1)[of trk ds rnd] by (simp add: strict_sorted_iff)
  have disj: "set (map (\<lambda>i. id' (?ts ! i)) ?K) \<inter> set (map id' ?S) = {}"
    using kr sr by fastforce
  have 1: "distinct (map id' (fst (update trk ds rnd)))"
    unfolding update_ids using dk ds' disj by simp
  have mono: "nextId trk \<le> nextId (snd (update trk ds rnd))"
    by (rule spawned_ids_range(3))
  have 2: "\<And>x. x \<in> set (map id' (fst (update trk ds rnd))) \<Longrightarrow>
      0 < x \<and> x < nextId (snd (update trk ds rnd))"
    unfolding update_ids using kr sr mono pos by fastforce
  show ?thesis
    unfolding wf_tracker_def nextId_update(2)
    using 1 2 mono pos by (auto simp: list_all_iff)
qed

section \<open>Unmatched tracks\<close>

text \<open>Every call keeps the configuration and the invariant of the ids.\<close>

lemma step_config [simp]:
  "maxMissingFrames (step trk c) = maxMissingFrames trk"
  "iouThreshold (step trk c) = iouThreshold trk"
  by (cases c; simp add: nextId_update reset_def)+

lemma run_config [simp]:
  "maxMissingFrames (run trk cs) = maxMissingFrames trk"
  "iouThreshold (run trk cs) = iouThreshold trk"
  by (induction cs arbitrary: trk) simp_all

lemma wf_constructor: "wf_tracker (constructor mx thr)"
  by (simp add: wf_tracker_def constructor_def)

lemma wf_reset: "wf_tracker (reset trk)"
  by (simp add: wf_tracker_def reset_def)

lemma wf_step: "wf_tracker trk \<Longrightarrow> wf_tracker (step trk c)"
  by (cases c) (simp_all add: wf_update wf_reset)

lemma wf_run: "wf_tracker trk \<Longrightarrow> wf_tracker (run trk cs)"
  by (induction cs arbitrary: trk) (simp_all add: wf_step)

lemma wf_run_updates: "wf_tracker trk \<Longrightarrow> wf_tracker (run_updates trk fs)"
  by (induction fs arbitrary: trk) (auto simp: wf_update)

lemma run_updates_append:
  "run_updates trk (fs @ gs) = run_updates (run_updates trk fs) gs"
  by (induction fs arbitrary: trk) auto

lemma run_updates_config [simp]:
  "maxMissingFrames (run_updates trk fs) = maxMissingFrames trk"
  by (induction fs arbitrary: trk) (auto simp: nextId_update)

lemma outputs_nonempty: "fs \<noteq> [] \<Longrightarrow> outputs trk fs \<noteq> []"
  by (cases fs) (auto split: prod.splits)

lemma last_outputs:
  "fs \<noteq> [] \<Longrightarrow> last (outputs trk fs) = tracks (run_updates trk fs)"
proof (induction fs arbitrary: trk)
  case Nil
  then show ?case by simp
next
  case (Cons f fs)
  obtain ds rnd where f: "f = (ds, rnd)" by (cases f)
  obtain out trk' where u: "update trk ds rnd = (out, trk')" by (cases "update trk ds rnd")
  have t: "tracks trk' = out" using nextId_update(2)[of trk ds rnd] by (simp add: u)
  show ?case
  proof (cases "fs = []")
    case True
    then show ?thesis by (simp add: f u t)
  next
    case False
    then show ?thesis using Cons.IH[OF False, of trk'] outputs_nonempty[OF False, of trk']
      by (simp add: f u)
  qed
qed

text \<open>The position of the live track with a given id.\<close>

lemma live_index:
  assumes "t \<in> set (tracks trk)"
  obtains j where "j < length (tracks trk)" "tracks trk ! j = t"
  using assms by (auto simp: in_set_conv_nth)

lemma id_index_unique:
  assumes "wf_tracker trk" "i < length (tracks trk)" "j < length (tracks trk)"
    "id' (tracks trk ! i) = id' (tracks trk ! j)"
  shows "i = j"
proof -
  have "distinct (map id' (tracks trk))" using assms(1) by (simp add: wf_tracker_def)
  then show ?thesis
    using nth_eq_iff_index_eq[of "map id' (tracks trk)" i j] assms(2,3,4) by simp
qed

lemma unmatched_index:
  assumes "unmatched_in trk ds n" "id' (tracks trk ! j) = n"
  shows "j \<notin> trackIdx ` set (accepted trk ds)"
proof
  assume "j \<in> trackIdx ` set (accepted trk ds)"
  then obtain m where "m \<in> set (accepted trk ds)" "j = trackIdx m" by (rule imageE)
  then have "n \<in> set (map (\<lambda>m. id' (tracks trk ! trackIdx m)) (accepted trk ds))"
    using assms(2) by (simp add: image_iff) (rule bexI[of _ m], simp_all)
  then show False using assms(1) by (simp add: unmatched_in_def)
qed

lemma unmatched_kept:
  assumes "wf_tracker trk" "t \<in> set (tracks trk)" "id' t = n" "unmatched_in trk ds n"
    "missingFrames t + 1 < maxMissingFrames trk"
  shows "\<exists>u \<in> set (fst (update trk ds rnd)). id' u = n \<and> missingFrames u = missingFrames t + 1"
proof -
  obtain j where j: "j < length (tracks trk)" "tracks trk ! j = t"
    using assms(2) by (rule live_index)
  have nj: "j \<notin> trackIdx ` set (accepted trk ds)"
    using unmatched_index[OF assms(4)] j assms(3) by simp
  let ?u = "(predict (tracks trk ! j))\<lparr>missingFrames := missingFrames (tracks trk ! j) + 1\<rparr>"
  have "j \<in> set (filter (\<lambda>i. i \<notin> trackIdx ` set (accepted trk ds)
                     \<and> missingFrames (tracks trk ! i) + 1 < maxMissingFrames trk)
            [0..<length (tracks trk)])"
    using j nj assms(5) by simp
  then have "?u \<in> set (fst (update trk ds rnd))"
    unfolding update_fst_kept by (simp only: set_append set_map) blast
  moreover have "id' ?u = n \<and> missingFrames ?u = missingFrames t + 1"
    using j assms(3) by simp
  ultimately show ?thesis by blast
qed

lemma unmatched_dropped:
  assumes "wf_tracker trk" "t \<in> set (tracks trk)" "id' t = n" "unmatched_in trk ds n"
    "\<not> missingFrames t + 1 < maxMissingFrames trk"
  shows "n \<notin> id' ` set (fst (update trk ds rnd))"
proof
  assume "n \<in> id' ` set (fst (update trk ds rnd))"
  then have "n \<in> set (map id' (fst (update trk ds rnd)))" by simp
  then consider (kept) i where "i \<in> set (kept_indices trk ds)" "id' (tracks trk ! i) = n"
    | (new) s where "s \<in> set (spawned_tracks trk ds rnd)" "id' s = n"
    unfolding update_ids by auto
  then show False
  proof cases
    case kept
    obtain j where j: "j < length (tracks trk)" "tracks trk ! j = t"
      using assms(2) by (rule live_index)
    have "i < length (tracks trk)" using kept(1) kept_indices_distinct[of trk ds] by auto
    then have "i = j" using id_index_unique[OF assms(1) _ j(1)] kept(2) j(2) assms(3) by simp
    moreover have "j \<notin> trackIdx ` set (accepted trk ds)"
      using unmatched_index[OF assms(4)] j assms(3) by simp
    ultimately show False using kept(1) assms(5) j(2) by (auto simp: kept_indices_def)
  next
    case new
    have "id' t < nextId trk" using assms(1,2) by (auto simp: wf_tracker_def list_all_iff)
    then show False using spawned_ids_range(2)[OF new(1)] new(2) assms(3) by simp
  qed
qed

lemma absent_update:
  assumes "n < nextId trk" "n \<notin> id' ` set (tracks trk)"
  shows "n \<notin> id' ` set (fst (update trk ds rnd)) \<and> n < nextId (snd (update trk ds rnd))"
proof -
  have "n \<notin> set (map id' (fst (update trk ds rnd)))"
  proof
    assume "n \<in> set (map id' (fst (update trk ds rnd)))"
    then consider (kept) i where "i \<in> set (kept_indices trk ds)" "id' (tracks trk ! i) = n"
      | (new) s where "s \<in> set (spawned_tracks trk ds rnd)" "id' s = n"
      unfolding update_ids by auto
    then show False
    proof cases
      case kept
      have "i < length (tracks trk)" using kept(1) kept_indices_distinct[of trk ds] by auto
      then have "tracks trk ! i \<in> set (tracks trk)" by simp
      then show False using assms(2) kept(2) by blast
    next
      case new
      then show False using spawned_ids_range(2)[OF new(1)] assms(1) by simp
    qed
  qed
  moreover have "n < nextId (snd (update trk ds rnd))"
    using assms(1) spawned_ids_range(3)[of trk ds rnd] by simp
  ultimately show ?thesis by simp
qed

lemma absent_run_updates:
  assumes "n < nextId trk" "n \<notin> id' ` set (tracks trk)"
  shows "n \<notin> id' ` set (tracks (run_updates trk fs))"
  using assms
proof (induction fs arbitrary: trk)
  case Nil
  then show ?case by simp
next
  case (Cons f fs)
  obtain ds rnd where f: "f = (ds, rnd)" by (cases f)
  show ?case
    using Cons.IH[of "snd (update trk ds rnd)"] absent_update[OF Cons.prems, of ds rnd]
    by (simp add: f nextId_update)
qed

text \<open>A track that stays unmatched over several calls.\<close>

lemma id_unique:
  assumes "wf_tracker trk" "u \<in> set (tracks trk)" "v \<in> set (tracks trk)" "id' u = id' v"
  shows "u = v"
proof -
  have "inj_on id' (set (tracks trk))"
    using assms(1) by (simp add: wf_tracker_def distinct_map)
  then show ?thesis using inj_onD[of id' "set (tracks trk)" u v] assms(2,3,4) by simp
qed

lemma nextId_run_updates_mono: "nextId trk \<le> nextId (run_updates trk fs)"
proof (induction fs arbitrary: trk)
  case Nil
  show ?case by simp
next
  case (Cons f fs)
  obtain ds rnd where f: "f = (ds, rnd)" by (cases f)
  show ?case
    using Cons.IH[of "snd (update trk ds rnd)"] spawned_ids_range(3)[of trk ds rnd]
    by (simp add: f)
qed

lemma unmatched_run:
  assumes "wf_tracker trk" "t \<in> set (tracks trk)" "id' t = n" "unmatched_for n trk fs" "fs \<noteq> []"
  shows "(missingFrames t + int (length fs) < maxMissingFrames trk \<longrightarrow>
           (\<exists>u \<in> set (tracks (run_updates trk fs)).
              id' u = n \<and> missingFrames u = missingFrames t + int (length fs)))
       \<and> (\<not> missingFrames t + int (length fs) < maxMissingFrames trk \<longrightarrow>
           n \<notin> id' ` set (tracks (run_updates trk fs)))"
  using assms
proof (induction fs arbitrary: trk t)
  case Nil
  then show ?case by simp
next
  case (Cons f fs)
  obtain ds rnd where f: "f = (ds, rnd)" by (cases f)
  let ?trk' = "snd (update trk ds rnd)"
  have un: "unmatched_in trk ds n" and un': "unmatched_for n ?trk' fs"
    using Cons.prems(4) by (simp_all add: f)
  have wf': "wf_tracker ?trk'" using Cons.prems(1) by (rule wf_update)
  have run: "run_updates trk (f # fs) = run_updates ?trk' fs" by (simp add: f)
  have mx: "maxMissingFrames ?trk' = maxMissingFrames trk" by (simp add: nextId_update)
  show ?case
  proof (cases "missingFrames t + 1 < maxMissingFrames trk")
    case True
    obtain u where u: "u \<in> set (tracks ?trk')" "id' u = n" "missingFrames u = missingFrames t + 1"
      using unmatched_kept[OF Cons.prems(1,2,3) un True, of rnd] by (auto simp: nextId_update)
    show ?thesis
    proof (cases "fs = []")
      case True
      have "n \<in> id' ` set (tracks ?trk')" using u(1,2) by blast
      then show ?thesis using True u \<open>missingFrames t + 1 < maxMissingFrames trk\<close>
        by (auto simp: f)
    next
      case False
      show ?thesis
        using Cons.IH[OF wf' u(1,2) un' False] unfolding run mx u(3) by (simp add: add.assoc)
    qed
  next
    case False
    have "n \<notin> id' ` set (tracks ?trk')"
      using unmatched_dropped[OF Cons.prems(1,2,3) un False, of rnd] by (simp add: nextId_update)
    moreover have "n < nextId ?trk'"
      using Cons.prems(1,2,3) spawned_ids_range(3)[of trk ds rnd]
      by (auto simp: wf_tracker_def list_all_iff)
    ultimately have "n \<notin> id' ` set (tracks (run_updates ?trk' fs))"
      by (intro absent_run_updates)
    then show ?thesis unfolding run using False by simp
  qed
qed

text \<open>
  Claim C3. In a reachable state, a live track with id \<open>n\<close> and \<open>missingFrames = 0\<close> that
  the next \<open>k > 0\<close> calls of \<^verbatim>\<open>update\<close> leave unmatched is, if \<open>k < maxMissingFrames\<close>, in
  the \<open>k\<close>-th returned list with \<open>missingFrames = k\<close> (and no track of that list with id
  \<open>n\<close> has another count); if \<open>k = maxMissingFrames\<close> it is absent from the \<open>k\<close>-th returned
  list, and no later call of \<^verbatim>\<open>update\<close> brings a track with id \<open>n\<close> back into the live
  set.
\<close>

theorem occlusion_tolerance:
  assumes "trk = run (constructor mx thr) cs"
    and "t \<in> set (tracks trk)" and "id' t = n" and "missingFrames t = 0"
    and "fs \<noteq> []" and "unmatched_for n trk fs"
  shows "(int (length fs) < mx \<longrightarrow>
            (\<exists>u \<in> set (last (outputs trk fs)). id' u = n \<and> missingFrames u = int (length fs))
          \<and> (\<forall>u \<in> set (last (outputs trk fs)). id' u = n \<longrightarrow> missingFrames u = int (length fs)))
       \<and> (int (length fs) = mx \<longrightarrow>
            n \<notin> id' ` set (last (outputs trk fs))
          \<and> (\<forall>gs. n \<notin> id' ` set (tracks (run_updates trk (fs @ gs)))))"
proof -
  have wf: "wf_tracker trk" unfolding assms(1) by (intro wf_run wf_constructor)
  have mx: "maxMissingFrames trk = mx" unfolding assms(1) by (simp add: constructor_def)
  have lo: "last (outputs trk fs) = tracks (run_updates trk fs)"
    using assms(5) by (rule last_outputs)
  note R = unmatched_run[OF wf assms(2,3,6,5), unfolded mx assms(4), simplified]
  have wf': "wf_tracker (run_updates trk fs)" using wf by (rule wf_run_updates)
  have lt: "n < nextId (run_updates trk fs)"
    using wf assms(2,3) nextId_run_updates_mono[of trk fs]
    by (auto simp: wf_tracker_def list_all_iff)
  have uniq: "\<And>u v. u \<in> set (tracks (run_updates trk fs)) \<Longrightarrow>
      v \<in> set (tracks (run_updates trk fs)) \<Longrightarrow> id' u = n \<Longrightarrow> id' v = n \<Longrightarrow> u = v"
    using id_unique[OF wf'] by simp
  have 1: "int (length fs) < mx \<longrightarrow>
            (\<exists>u \<in> set (last (outputs trk fs)). id' u = n \<and> missingFrames u = int (length fs))
          \<and> (\<forall>u \<in> set (last (outputs trk fs)). id' u = n \<longrightarrow> missingFrames u = int (length fs))"
  proof
    assume "int (length fs) < mx"
    then obtain u where u: "u \<in> set (tracks (run_updates trk fs))" "id' u = n"
      "missingFrames u = int (length fs)"
      using R by blast
    have "\<forall>v \<in> set (tracks (run_updates trk fs)). id' v = n \<longrightarrow> missingFrames v = int (length fs)"
      using uniq[OF u(1) _ u(2)] u(3) by blast
    then show "(\<exists>u \<in> set (last (outputs trk fs)). id' u = n \<and> missingFrames u = int (length fs))
          \<and> (\<forall>u \<in> set (last (outputs trk fs)). id' u = n \<longrightarrow> missingFrames u = int (length fs))"
      unfolding lo using u by blast
  qed
  have 2: "int (length fs) = mx \<longrightarrow>
            n \<notin> id' ` set (last (outputs trk fs))
          \<and> (\<forall>gs. n \<notin> id' ` set (tracks (run_updates trk (fs @ gs))))"
  proof
    assume "int (length fs) = mx"
    then have a: "n \<notin> id' ` set (tracks (run_updates trk fs))" using R by simp
    have "\<forall>gs. n \<notin> id' ` set (tracks (run_updates trk (fs @ gs)))"
      unfolding run_updates_append using absent_run_updates[OF lt a] by blast
    then show "n \<notin> id' ` set (last (outputs trk fs))
          \<and> (\<forall>gs. n \<notin> id' ` set (tracks (run_updates trk (fs @ gs))))"
      unfolding lo using a by blast
  qed
  from 1 2 show ?thesis by blast
qed

text \<open>
  Claim C4, amended. A track is dropped as soon as its counter reaches the limit: in a
  reachable state, an unmatched live track is retained by a call of \<^verbatim>\<open>update\<close>, with its
  counter incremented, when the incremented counter is below \<open>maxMissingFrames\<close>; otherwise
  (the incremented counter equals or exceeds the limit) it is absent from the returned list
  and from the live set.
\<close>

theorem unmatched_retained_iff:
  assumes "trk = run (constructor mx thr) cs"
    and "t \<in> set (tracks trk)" and "id' t = n" and "unmatched_in trk ds n"
  shows "maxMissingFrames trk = mx
       \<and> (missingFrames t + 1 < mx \<longrightarrow>
            (\<exists>u \<in> set (fst (update trk ds rnd)). id' u = n \<and> missingFrames u = missingFrames t + 1))
       \<and> (\<not> missingFrames t + 1 < mx \<longrightarrow>
            n \<notin> id' ` set (fst (update trk ds rnd))
          \<and> n \<notin> id' ` set (tracks (snd (update trk ds rnd))))"
proof -
  have wf: "wf_tracker trk" unfolding assms(1) by (intro wf_run wf_constructor)
  have mx: "maxMissingFrames trk = mx" unfolding assms(1) by (simp add: constructor_def)
  show ?thesis
    using unmatched_kept[OF wf assms(2,3,4), of rnd] unmatched_dropped[OF wf assms(2,3,4), of rnd]
    unfolding mx by (simp add: nextId_update)
qed

text \<open>The scenario: the states after its second and after its third call.\<close>

lemma scenario_state2:
  "run (constructor 2 (1 / 4)) scenario_calls =
     \<lparr>nextId = 2,
      tracks = [\<lparr>bbox = (15, 10, 20, 20), class' = ''person'', score = 8 / 10, id' = 1,
                 missingFrames = 0, color = getRandomColor 0, velocity = (5 / 2, 0)\<rparr>],
      maxMissingFrames = 2, iouThreshold = 1 / 4\<rparr>"
  by (simp add: scenario_calls_def constructor_def scenario_frame1 scenario_frame2)

lemma scenario_state3:
  "run (constructor 2 (1 / 4)) (scenario_calls @ [Update [] (\<lambda>n. 0)]) =
     \<lparr>nextId = 2,
      tracks = [\<lparr>bbox = (35 / 2, 10, 20, 20), class' = ''person'', score = 8 / 10, id' = 1,
                 missingFrames = 1, color = getRandomColor 0, velocity = (5 / 2, 0)\<rparr>],
      maxMissingFrames = 2, iouThreshold = 1 / 4\<rparr>"
  by (simp add: scenario_calls_def constructor_def scenario_frame1 scenario_frame2
      scenario_frame3)

lemma no_detections_unmatched: "unmatched_in trk [] n"
proof -
  have "update_matches trk [] = []"
  proof (rule ccontr)
    assume "update_matches trk [] \<noteq> []"
    then obtain m where "m \<in> set (update_matches trk [])"
      by (cases "update_matches trk []") auto
    then show False unfolding update_matches_iff by simp
  qed
  then show ?thesis by (simp add: unmatched_in_def accepted_def)
qed

theorem occlusion_tolerance_witness:
  "(\<exists>u \<in> set (last (outputs (run (constructor 2 (1 / 4)) scenario_calls) [([], \<lambda>n. 0)])).
       id' u = 1 \<and> missingFrames u = 1)
   \<and> 1 \<notin> id' ` set (last (outputs (run (constructor 2 (1 / 4)) scenario_calls)
                              [([], \<lambda>n. 0), ([], \<lambda>n. 0)]))"
proof -
  let ?trk = "run (constructor 2 (1 / 4)) scenario_calls"
  let ?t = "\<lparr>bbox = (15, 10, 20, 20), class' = ''person'', score = 8 / 10, id' = 1,
             missingFrames = 0, color = getRandomColor 0, velocity = (5 / 2, 0)\<rparr>"
  have t: "?t \<in> set (tracks ?trk)" by (simp add: scenario_state2)
  have i: "id' ?t = 1" and m: "missingFrames ?t = 0" by simp_all
  have u1: "unmatched_for 1 ?trk [([], \<lambda>n. 0)]" by (simp add: no_detections_unmatched)
  have u2: "unmatched_for 1 ?trk [([], \<lambda>n. 0), ([], \<lambda>n. 0)]"
    by (simp add: no_detections_unmatched)
  show ?thesis
    using occlusion_tolerance[OF refl t i m _ u1] occlusion_tolerance[OF refl t i m _ u2]
    by simp
qed

theorem dropped_at_limit_counterexample:
  "map id' (tracks (run (constructor 2 (1 / 4)) (scenario_calls @ [Update [] (\<lambda>n. 0)]))) = [1]
   \<and> map missingFrames
        (tracks (run (constructor 2 (1 / 4)) (scenario_calls @ [Update [] (\<lambda>n. 0)]))) = [1]
   \<and> maxMissingFrames (run (constructor 2 (1 / 4)) (scenario_calls @ [Update [] (\<lambda>n. 0)])) = 2
   \<and> unmatched_in (run (constructor 2 (1 / 4)) (scenario_calls @ [Update [] (\<lambda>n. 0)])) [] 1
   \<and> fst (update (run (constructor 2 (1 / 4)) (scenario_calls @ [Update [] (\<lambda>n. 0)])) []
            (\<lambda>n. 0)) = []"
  by (simp add: scenario_state3 no_detections_unmatched scenario_frame4)

theorem unmatched_retained_iff_witness:
  "(\<exists>u \<in> set (fst (update (run (constructor 2 (1 / 4)) scenario_calls) [] (\<lambda>n. 0))).
       id' u = 1 \<and> missingFrames u = 1)
   \<and> 1 \<notin> id' ` set (fst (update (run (constructor 2 (1 / 4))
                                    (scenario_calls @ [Update [] (\<lambda>n. 0)])) [] (\<lambda>n. 0)))"
proof -
  let ?trk = "run (constructor 2 (1 / 4)) scenario_calls"
  let ?t = "\<lparr>bbox = (15, 10, 20, 20), class' = ''person'', score = 8 / 10, id' = 1,
             missingFrames = 0, color = getRandomColor 0, velocity = (5 / 2, 0)\<rparr>"
  let ?trk3 = "run (constructor 2 (1 / 4)) (scenario_calls @ [Update [] (\<lambda>n. 0)])"
  let ?t3 = "\<lparr>bbox = (35 / 2, 10, 20, 20), class' = ''person'', score = 8 / 10, id' = 1,
              missingFrames = 1, color = getRandomColor 0, velocity = (5 / 2, 0)\<rparr>"
  have t: "?t \<in> set (tracks ?trk)" by (simp add: scenario_state2)
  have t3: "?t3 \<in> set (tracks ?trk3)" by (simp add: scenario_state3)
  have i: "id' ?t = 1" and i3: "id' ?t3 = 1" by simp_all
  show ?thesis
    using unmatched_retained_iff[OF refl t i no_detections_unmatched, of "\<lambda>n. 0"]
      unmatched_retained_iff[OF refl t3 i3 no_detections_unmatched, of "\<lambda>n. 0"]
    by simp
qed

section \<open>The ids over a lifetime\<close>

lemma ids_since_reset_inv:
  assumes "wf_tracker trk" "sorted_wrt (<) acc"
    "list_all (\<lambda>i. 0 < i \<and> i < nextId trk) acc"
    "set (map id' (tracks trk)) \<subseteq> set acc"
  shows "sorted_wrt (<) (ids_since_reset trk cs acc)
       \<and> list_all (\<lambda>i. 0 < i \<and> i < nextId (run trk cs)) (ids_since_reset trk cs acc)
       \<and> set (map id' (tracks (run trk cs))) \<subseteq> set (ids_since_reset trk cs acc)"
  using assms
proof (induction cs arbitrary: trk acc)
  case Nil
  then show ?case by simp
next
  case (Cons c cs)
  show ?case
  proof (cases c)
    case Reset
    have "wf_tracker (reset trk)" by (rule wf_reset)
    moreover have "set (map id' (tracks (reset trk))) \<subseteq> set []" by (simp add: reset_def)
    ultimately show ?thesis
      using Cons.IH[of "reset trk" "[]"] by (simp add: Reset)
  next
    case (Update ds rnd)
    let ?trk' = "snd (update trk ds rnd)"
    let ?new = "map id' (spawned_tracks trk ds rnd)"
    have wf': "wf_tracker ?trk'" using Cons.prems(1) by (rule wf_update)
    have mono: "nextId trk \<le> nextId ?trk'" by (rule spawned_ids_range(3))
    have new: "\<And>x. x \<in> set ?new \<Longrightarrow> nextId trk \<le> x \<and> x < nextId ?trk'"
      using spawned_ids_range(2)[of _ trk ds rnd] by auto
    have old: "\<And>x. x \<in> set acc \<Longrightarrow> 0 < x \<and> x < nextId trk"
      using Cons.prems(3) by (simp add: list_all_iff)
    have pos: "0 < nextId trk" using Cons.prems(1) by (simp add: wf_tracker_def)
    have cross: "\<forall>x \<in> set acc. \<forall>y \<in> set ?new. x < y"
    proof (intro ballI)
      fix x y assume "x \<in> set acc" "y \<in> set ?new"
      then have "x < nextId trk" "nextId trk \<le> y" using old new by blast+
      then show "x < y" by linarith
    qed
    have 1: "sorted_wrt (<) (acc @ ?new)"
      unfolding sorted_wrt_append
      using Cons.prems(2) spawned_ids_range(1)[of trk ds rnd] cross by blast
    have 2: "list_all (\<lambda>i. 0 < i \<and> i < nextId ?trk') (acc @ ?new)"
      unfolding list_all_iff set_append
    proof
      fix x assume "x \<in> set acc \<union> set ?new"
      then show "0 < x \<and> x < nextId ?trk'"
      proof
        assume "x \<in> set acc"
        from old[OF this] mono show ?thesis by linarith
      next
        assume "x \<in> set ?new"
        from new[OF this] pos show ?thesis by linarith
      qed
    qed
    have K: "set (kept_indices trk ds) \<subseteq> {..<length (tracks trk)}"
      using kept_indices_distinct by blast
    have "set (map (\<lambda>i. id' (tracks trk ! i)) (kept_indices trk ds)) \<subseteq> set (map id' (tracks trk))"
      using K by auto
    then have 3: "set (map id' (tracks ?trk')) \<subseteq> set (acc @ ?new)"
      unfolding nextId_update(2) update_ids using Cons.prems(4) by auto
    show ?thesis
      using Cons.IH[OF wf' 1 2 3] by (simp add: Update)
  qed
qed

lemma ids_since_reset_no_reset:
  "Reset \<notin> set cs \<Longrightarrow> ids_since_reset trk cs acc = acc @ assigned_ids trk cs"
proof (induction cs arbitrary: trk acc)
  case Nil
  show ?case by simp
next
  case (Cons c cs)
  then show ?case by (cases c) simp_all
qed

text \<open>
  Claim C7, amended. After every sequence of \<^verbatim>\<open>update\<close> and \<^verbatim>\<open>reset\<close> calls on a new
  tracker the ids of the live tracks are positive and pairwise distinct, and the ids handed
  out since the last \<^verbatim>\<open>reset\<close> (since the construction, if there was none) are positive
  and strictly increasing in the order of assignment: each newly spawned track receives an
  id greater than every id assigned since then, and every live track carries one of these
  ids. A \<^verbatim>\<open>reset\<close> restarts the numbering at 1; without one, the ids handed out over the
  whole lifetime are those since the construction.
\<close>

theorem ids_unique_increasing:
  "distinct (map id' (tracks (run (constructor mx thr) cs)))
   \<and> list_all (\<lambda>t. 0 < id' t) (tracks (run (constructor mx thr) cs))
   \<and> sorted_wrt (<) (ids_since_reset (constructor mx thr) cs [])
   \<and> list_all (\<lambda>i. 0 < i) (ids_since_reset (constructor mx thr) cs [])
   \<and> set (map id' (tracks (run (constructor mx thr) cs)))
       \<subseteq> set (ids_since_reset (constructor mx thr) cs [])
   \<and> (Reset \<notin> set cs \<longrightarrow>
        assigned_ids (constructor mx thr) cs = ids_since_reset (constructor mx thr) cs [])"
proof -
  have wf0: "wf_tracker (constructor mx thr)" by (rule wf_constructor)
  have wf: "wf_tracker (run (constructor mx thr) cs)" using wf0 by (rule wf_run)
  have t0: "set (map id' (tracks (constructor mx thr))) \<subseteq> set []"
    by (simp add: constructor_def)
  note I = ids_since_reset_inv[OF wf0 _ _ t0, of cs, simplified]
  show ?thesis
    using wf I ids_since_reset_no_reset[of cs "constructor mx thr" "[]"]
    by (auto simp: wf_tracker_def list_all_iff)
qed

text \<open>A tracker without live tracks: every detection spawns.\<close>

lemma no_tracks_matches: "tracks trk = [] \<Longrightarrow> update_matches trk ds = []"
proof (rule ccontr)
  assume "tracks trk = []" "update_matches trk ds \<noteq> []"
  then obtain m where "m \<in> set (update_matches trk ds)" "tracks trk = []"
    by (cases "update_matches trk ds") auto
  then show False unfolding update_matches_iff by simp
qed

lemma no_tracks_update:
  assumes "tracks trk = []"
  shows "fst (update trk ds rnd) = fst (spawn ds 0 {} (nextId trk) rnd 0)"
  using assms no_tracks_matches[OF assms, of ds]
  by (simp add: update_fst_kept spawned_tracks_def update_loop_assigned accepted_def)

lemma example_matches_frame2:
  "update_matches
     \<lparr>nextId = 2,
      tracks = [\<lparr>bbox = (10, 10, 20, 20), class' = c1, score = s1, id' = 1,
                 missingFrames = 0, color = col, velocity = (0, 0)\<rparr>],
      maxMissingFrames = 2, iouThreshold = 1 / 4\<rparr>
     [\<lparr>bbox = (15, 10, 20, 20), class' = c2, score = s2\<rparr>] =
   [\<lparr>trackIdx = 0, detIdx = 0, iou = 3 / 5\<rparr>]"
  by (simp add: update_matches_def sort_matches_def candidate_matches_def predict_def Let_def)

theorem id_reuse_after_reset_counterexample:
  "assigned_ids (constructor 30 (1 / 4))
     [Update [\<lparr>bbox = (10, 10, 20, 20), class' = ''person'', score = 9 / 10\<rparr>] (\<lambda>n. 0),
      Reset,
      Update [\<lparr>bbox = (10, 10, 20, 20), class' = ''person'', score = 9 / 10\<rparr>] (\<lambda>n. 0)]
   = [1, 1]"
  by (simp add: spawned_tracks_def update_loop_assigned accepted_def no_tracks_matches
      constructor_def reset_def newTrack_def nextId_update)

theorem ids_unique_increasing_witness:
  "ids_since_reset (constructor 2 (1 / 4))
      (scenario_calls @ [Reset,
        Update [\<lparr>bbox = (10, 10, 20, 20), class' = ''person'', score = 9 / 10\<rparr>,
                \<lparr>bbox = (50, 50, 20, 20), class' = ''dog'', score = 9 / 10\<rparr>] (\<lambda>n. 0)]) []
     = [1, 2]
   \<and> distinct (map id' (tracks (run (constructor 2 (1 / 4)) scenario_calls)))
   \<and> sorted_wrt (<) (ids_since_reset (constructor 2 (1 / 4)) scenario_calls [])
   \<and> assigned_ids (constructor 2 (1 / 4)) scenario_calls = [1]"
  using ids_unique_increasing[of 2 "1 / 4" scenario_calls]
  by (simp add: scenario_calls_def spawned_tracks_def update_loop_assigned accepted_def
      no_tracks_matches constructor_def reset_def newTrack_def nextId_update scenario_frame1
      scenario_frame2 example_matches_frame2)

section \<open>Determinism and reset\<close>

text \<open>No step of \<^verbatim>\<open>update\<close> reads a colour.\<close>

lemma sbc_predict:
  "same_but_color t u \<Longrightarrow> same_but_color (predict t) (predict u)"
  by (simp add: same_but_color_def predict_def split: prod.splits)

lemma sbc_apply_match:
  "same_but_color t u \<Longrightarrow> same_but_color (apply_match t d) (apply_match u d)"
  by (simp add: same_but_color_def apply_match_def Let_def)

lemma sbc_aged:
  "same_but_color t u \<Longrightarrow>
   same_but_color (t\<lparr>missingFrames := missingFrames t + 1\<rparr>) (u\<lparr>missingFrames := missingFrames u + 1\<rparr>)"
  by (simp add: same_but_color_def)

lemma sbc_newTrack: "same_but_color (newTrack d n r) (newTrack d n r')"
  by (simp add: same_but_color_def newTrack_def)

lemma spawn_color:
  "list_all2 same_but_color (fst (spawn ds i A n r1 k1)) (fst (spawn ds i A n r2 k2))
   \<and> snd (spawn ds i A n r1 k1) = snd (spawn ds i A n r2 k2)"
proof (induction ds arbitrary: i n k1 k2)
  case Nil
  show ?case by simp
next
  case (Cons d ds)
  show ?case
  proof (cases "i \<in> A")
    case True
    then show ?thesis using Cons.IH[of "Suc i" n k1 k2] by simp
  next
    case False
    obtain x1 n1 where s1: "spawn ds (Suc i) A (n + 1) r1 (Suc k1) = (x1, n1)"
      by (cases "spawn ds (Suc i) A (n + 1) r1 (Suc k1)")
    obtain x2 n2 where s2: "spawn ds (Suc i) A (n + 1) r2 (Suc k2) = (x2, n2)"
      by (cases "spawn ds (Suc i) A (n + 1) r2 (Suc k2)")
    show ?thesis
      using False Cons.IH[of "Suc i" "n + 1" "Suc k1" "Suc k2"]
        sbc_newTrack[of d n "r1 k1" "r2 k2"]
      by (simp add: s1 s2)
  qed
qed

lemma candidate_matches_cong:
  assumes "length ts = length us" "\<And>i. i < length ts \<Longrightarrow> bbox (ts ! i) = bbox (us ! i)"
  shows "candidate_matches ts ds thr = candidate_matches us ds thr"
proof -
  have "map (\<lambda>tIdx.
       concat (map (\<lambda>dIdx.
         let i = calculateIoU (bbox (ts ! tIdx)) (bbox (ds ! dIdx))
         in if i \<ge> thr then [\<lparr>trackIdx = tIdx, detIdx = dIdx, iou = i\<rparr>] else [])
       [0..<length ds])) [0..<length ts] =
     map (\<lambda>tIdx.
       concat (map (\<lambda>dIdx.
         let i = calculateIoU (bbox (us ! tIdx)) (bbox (ds ! dIdx))
         in if i \<ge> thr then [\<lparr>trackIdx = tIdx, detIdx = dIdx, iou = i\<rparr>] else [])
       [0..<length ds])) [0..<length ts]"
    using assms(2) by (intro map_cong refl) simp
  then show ?thesis
    unfolding candidate_matches_def assms(1)[symmetric] by (rule arg_cong[where f = concat])
qed

lemma update_matches_color:
  assumes "equal_up_to_color a b"
  shows "update_matches a ds = update_matches b ds"
proof -
  have l: "length (tracks a) = length (tracks b)"
    and thr: "iouThreshold a = iouThreshold b"
    and s: "\<And>i. i < length (tracks a) \<Longrightarrow> same_but_color (tracks a ! i) (tracks b ! i)"
    using assms by (auto simp: equal_up_to_color_def list_all2_conv_all_nth)
  have "candidate_matches (map predict (tracks a)) ds (iouThreshold a) =
        candidate_matches (map predict (tracks b)) ds (iouThreshold a)"
  proof (rule candidate_matches_cong)
    show "length (map predict (tracks a)) = length (map predict (tracks b))" using l by simp
  next
    fix i assume "i < length (map predict (tracks a))"
    then have i: "i < length (tracks a)" "i < length (tracks b)" using l by simp_all
    from sbc_predict[OF s[OF i(1)]]
    show "bbox (map predict (tracks a) ! i) = bbox (map predict (tracks b) ! i)"
      using i by (simp add: same_but_color_def)
  qed
  then show ?thesis unfolding update_matches_def thr by simp
qed

lemma update_color:
  assumes "equal_up_to_color a b"
  shows "list_all2 same_but_color (fst (update a ds r1)) (fst (update b ds r2))
       \<and> equal_up_to_color (snd (update a ds r1)) (snd (update b ds r2))"
proof -
  have l: "length (tracks a) = length (tracks b)"
    and n: "nextId a = nextId b" and mx: "maxMissingFrames a = maxMissingFrames b"
    and thr: "iouThreshold a = iouThreshold b"
    and s: "\<And>i. i < length (tracks a) \<Longrightarrow> same_but_color (tracks a ! i) (tracks b ! i)"
    using assms by (auto simp: equal_up_to_color_def list_all2_conv_all_nth)
  have acc: "accepted a ds = accepted b ds"
    unfolding accepted_def update_matches_color[OF assms] ..
  let ?acc = "accepted b ds"
  let ?Q = "\<lambda>trk i. i \<notin> trackIdx ` set ?acc
                     \<and> missingFrames (tracks trk ! i) + 1 < maxMissingFrames trk"
  have f: "filter (\<lambda>i. i \<notin> trackIdx ` set ?acc
                     \<and> missingFrames (tracks a ! i) + 1 < maxMissingFrames b)
             [0..<length (tracks a)] = filter (?Q b) [0..<length (tracks b)]"
    unfolding l
  proof (intro filter_cong refl)
    fix i assume "i \<in> set [0..<length (tracks b)]"
    then have "same_but_color (tracks a ! i) (tracks b ! i)" using s l by simp
    then show "(i \<notin> trackIdx ` set ?acc
                     \<and> missingFrames (tracks a ! i) + 1 < maxMissingFrames b) = ?Q b i"
      by (simp add: same_but_color_def)
  qed
  have 1: "list_all2 same_but_color
      (map (\<lambda>m. apply_match (predict (tracks a ! trackIdx m)) (ds ! detIdx m)) ?acc)
      (map (\<lambda>m. apply_match (predict (tracks b ! trackIdx m)) (ds ! detIdx m)) ?acc)"
    unfolding list_all2_map1 list_all2_map2 list_all2_same
  proof
    fix m assume "m \<in> set ?acc"
    then have "trackIdx m < length (tracks a)" using accepted_props(1)[of m b ds] l by simp
    then show "same_but_color (apply_match (predict (tracks a ! trackIdx m)) (ds ! detIdx m))
        (apply_match (predict (tracks b ! trackIdx m)) (ds ! detIdx m))"
      by (intro sbc_apply_match sbc_predict s)
  qed
  have 2: "list_all2 same_but_color
      (map (\<lambda>i. (predict (tracks a ! i))\<lparr>missingFrames := missingFrames (tracks a ! i) + 1\<rparr>)
         (filter (?Q b) [0..<length (tracks b)]))
      (map (\<lambda>i. (predict (tracks b ! i))\<lparr>missingFrames := missingFrames (tracks b ! i) + 1\<rparr>)
         (filter (?Q b) [0..<length (tracks b)]))"
    unfolding list_all2_map1 list_all2_map2 list_all2_same
  proof
    fix i assume "i \<in> set (filter (?Q b) [0..<length (tracks b)])"
    then have "i < length (tracks a)" using l by simp
    from sbc_aged[OF sbc_predict[OF s[OF this]]]
    show "same_but_color
        ((predict (tracks a ! i))\<lparr>missingFrames := missingFrames (tracks a ! i) + 1\<rparr>)
        ((predict (tracks b ! i))\<lparr>missingFrames := missingFrames (tracks b ! i) + 1\<rparr>)"
      by simp
  qed
  have A: "assignedDetIndices (update_loop a ds) = assignedDetIndices (update_loop b ds)"
    by (simp add: update_loop_assigned acc)
  note S = spawn_color[of ds 0 "assignedDetIndices (update_loop b ds)" "nextId b" r1 0 r2 0]
  have 3: "list_all2 same_but_color (spawned_tracks a ds r1) (spawned_tracks b ds r2)"
    unfolding spawned_tracks_def A n using S by simp
  have out: "list_all2 same_but_color (fst (update a ds r1)) (fst (update b ds r2))"
    unfolding update_fst_kept acc mx f
    using 1 2 3 by (intro list_all2_appendI)
  have "nextId (snd (update a ds r1)) = nextId (snd (update b ds r2))"
    unfolding nextId_update(1) A n using S by simp
  then show ?thesis
    using out mx thr by (simp add: equal_up_to_color_def nextId_update)
qed

lemma outputs_color:
  assumes "equal_up_to_color a b" "map fst fs = map fst gs"
  shows "list_all2 (list_all2 same_but_color) (outputs a fs) (outputs b gs)"
  using assms
proof (induction fs arbitrary: a b gs)
  case Nil
  then show ?case by simp
next
  case (Cons f fs)
  obtain ds r1 where f: "f = (ds, r1)" by (cases f)
  obtain g gs' where gs: "gs = g # gs'" using Cons.prems(2) by (cases gs) auto
  obtain r2 where g: "g = (ds, r2)" using Cons.prems(2) f gs by (cases g) auto
  have rest: "map fst fs = map fst gs'" using Cons.prems(2) gs by simp
  obtain o1 a' where u1: "update a ds r1 = (o1, a')" by (cases "update a ds r1")
  obtain o2 b' where u2: "update b ds r2 = (o2, b')" by (cases "update b ds r2")
  have "list_all2 same_but_color o1 o2" "equal_up_to_color a' b'"
    using update_color[OF Cons.prems(1), of ds r1 r2] by (simp_all add: u1 u2)
  then show ?case
    using Cons.IH[OF _ rest, of a' b'] by (simp add: f g gs u1 u2)
qed

lemma equal_up_to_color_refl: "equal_up_to_color a a"
  by (simp add: equal_up_to_color_def same_but_color_def list_all2_same)

lemma reset_eq_constructor: "reset trk = constructor (maxMissingFrames trk) (iouThreshold trk)"
  by (simp add: reset_def constructor_def)

lemma first_spawned_id:
  assumes "tracks trk = []" "ds \<noteq> []"
  shows "id' (hd (fst (update trk ds rnd))) = nextId trk"
proof -
  obtain d ds' where ds: "ds = d # ds'" using assms(2) by (cases ds) auto
  show ?thesis
    unfolding no_tracks_update[OF assms(1)] ds
    by (simp add: newTrack_def split: prod.splits)
qed

text \<open>
  Claim C9. \<^verbatim>\<open>reset()\<close> on a reachable state gives the state of a newly constructed tracker
  with the same configuration: the live set is empty, the id counter is 1 and the
  configuration is unchanged. The first track spawned by the next call has id 1, and the
  calls that follow return what a new tracker returns, up to the colours.
\<close>

theorem reset_like_new:
  "reset (run (constructor mx thr) cs) = constructor mx thr
   \<and> tracks (reset trk) = [] \<and> nextId (reset trk) = 1
   \<and> maxMissingFrames (reset trk) = maxMissingFrames trk
   \<and> iouThreshold (reset trk) = iouThreshold trk
   \<and> (ds \<noteq> [] \<longrightarrow> id' (hd (fst (update (reset trk) ds rnd))) = 1)
   \<and> (map fst fs = map fst gs \<longrightarrow>
        list_all2 (list_all2 same_but_color)
          (outputs (reset (run (constructor mx thr) cs)) fs) (outputs (constructor mx thr) gs))"
proof -
  have r: "reset (run (constructor mx thr) cs) = constructor mx thr"
    by (simp add: reset_eq_constructor) (simp add: constructor_def)
  have f: "ds \<noteq> [] \<longrightarrow> id' (hd (fst (update (reset trk) ds rnd))) = 1"
    using first_spawned_id[of "reset trk" ds rnd] by (simp add: reset_def)
  have o: "map fst fs = map fst gs \<longrightarrow>
        list_all2 (list_all2 same_but_color)
          (outputs (reset (run (constructor mx thr) cs)) fs) (outputs (constructor mx thr) gs)"
    unfolding r using outputs_color[OF equal_up_to_color_refl] by blast
  show ?thesis using r f o by (simp add: reset_def)
qed

theorem reset_like_new_witness:
  "reset (run (constructor 2 (1 / 4)) scenario_calls) = constructor 2 (1 / 4)
   \<and> tracks (run (constructor 2 (1 / 4)) scenario_calls) \<noteq> []
   \<and> nextId (run (constructor 2 (1 / 4)) scenario_calls) = 2
   \<and> tracks (reset (run (constructor 2 (1 / 4)) scenario_calls)) = []
   \<and> nextId (reset (run (constructor 2 (1 / 4)) scenario_calls)) = 1
   \<and> id' (hd (fst (update (reset (run (constructor 2 (1 / 4)) scenario_calls))
        [\<lparr>bbox = (10, 10, 20, 20), class' = ''person'', score = 9 / 10\<rparr>] (\<lambda>n. 0)))) = 1
   \<and> list_all2 (list_all2 same_but_color)
        (outputs (reset (run (constructor 2 (1 / 4)) scenario_calls))
           [([\<lparr>bbox = (10, 10, 20, 20), class' = ''person'', score = 9 / 10\<rparr>], \<lambda>n. 0)])
        (outputs (constructor 2 (1 / 4))
           [([\<lparr>bbox = (10, 10, 20, 20), class' = ''person'', score = 9 / 10\<rparr>], \<lambda>n. 1 / 2)])"
proof -
  let ?d = "\<lparr>bbox = (10, 10, 20, 20), class' = ''person'', score = 9 / 10\<rparr>"
  have s: "tracks (run (constructor 2 (1 / 4)) scenario_calls) \<noteq> []"
    "nextId (run (constructor 2 (1 / 4)) scenario_calls) = 2"
    by (simp_all add: scenario_state2)
  have d: "[?d] \<noteq> []" by simp
  have e: "map fst [([?d], \<lambda>n::nat. 0::real)] = map fst [([?d], \<lambda>n::nat. 1 / 2 :: real)]"
    by simp
  note R = reset_like_new[of 2 "1 / 4" scenario_calls
      "run (constructor 2 (1 / 4)) scenario_calls" "[?d]" "\<lambda>n. 0"
      "[([?d], \<lambda>n. 0)]" "[([?d], \<lambda>n. 1 / 2)]"]
  from R d e s show ?thesis by blast
qed

section \<open>Determinism over the store\<close>
















end
